theory Spec2Isabelle
  imports Complex_Main "HOL-Library.Multiset" "HOL-Library.Sublist"
begin

section \<open>JavaScript strings\<close>

text \<open>
  A JavaScript string is a sequence of UTF-16 code units. It is modelled as the list of
  its code units, each a natural number; \<open>length\<close> is the \<^verbatim>\<open>.length\<close> of the
  source. \<open>js\<close> turns an ASCII literal into such a list.
\<close>

type_synonym jsstring = "nat list"

definition js :: "string \<Rightarrow> jsstring" where
  "js s = map of_char s"

text \<open>
  The code units that \<^verbatim>\<open>String.prototype.trim\<close> strips and that the regular
  expression class \<^verbatim>\<open>\s\<close> matches: ECMAScript WhiteSpace and LineTerminator.
\<close>

definition isWhiteSpace :: "nat \<Rightarrow> bool" where
  "isWhiteSpace c \<longleftrightarrow>
     c \<in> set [9, 10, 11, 12, 13, 32, 160, 5760, 8232, 8233, 8239, 8287, 12288, 65279]
     \<or> (8192 \<le> c \<and> c \<le> 8202)"

definition trim :: "jsstring \<Rightarrow> jsstring" where
  "trim s = rev (dropWhile isWhiteSpace (rev (dropWhile isWhiteSpace s)))"

text \<open>
  \<^verbatim>\<open>String.prototype.toLowerCase\<close> is a built-in whose result follows the Unicode
  tables of the engine (it folds every cased letter and may change the length of a
  string). It is not modelled: every function below that calls it takes it as its first
  argument \<open>toLowerCase\<close>, an arbitrary function on strings, and every theorem holds
  for every such function.

  On a string of Basic Latin code units the built-in replaces the capital letters
  \<open>A\<close> to \<open>Z\<close> by the small ones and keeps the rest. \<open>lowerASCII\<close> is that function;
  it stands for the built-in where a concrete input of such code units is evaluated.
\<close>

definition lowerASCII :: "jsstring \<Rightarrow> jsstring" where
  "lowerASCII s = map (\<lambda>c. if 65 \<le> c \<and> c \<le> 90 then c + 32 else c) s"

text \<open>
  \<^verbatim>\<open>text.indexOf(segment, pos)\<close>: the least index \<open>k \<ge> pos\<close> at which
  \<open>segment\<close> occurs in \<open>text\<close>, \<open>None\<close> for the source's \<open>-1\<close>. The start
  position is clamped to the length of the text.
\<close>

fun scanFrom :: "jsstring \<Rightarrow> jsstring \<Rightarrow> nat \<Rightarrow> nat option" where
  "scanFrom segment [] k = (if segment = [] then Some k else None)"
| "scanFrom segment (x # xs) k =
     (if prefix segment (x # xs) then Some k else scanFrom segment xs (Suc k))"

definition indexOf :: "jsstring \<Rightarrow> jsstring \<Rightarrow> nat \<Rightarrow> nat option" where
  "indexOf text segment pos =
     (let start = min pos (length text) in scanFrom segment (drop start text) start)"

text \<open>
  \<^verbatim>\<open>array.slice(start)\<close> for an integer \<open>start\<close>: a negative start counts from
  the end and is clamped to the beginning, a non-negative one is clamped to the length.
\<close>

definition slice_from :: "'a list \<Rightarrow> int \<Rightarrow> 'a list" where
  "slice_from xs start =
     (if start < 0 then drop (nat (max (int (length xs) + start) 0)) xs
      else drop (nat (min start (int (length xs)))) xs)"


section \<open>Quality guard\<close>

text \<open>
  \<^verbatim>\<open>QualityGuardConfig\<close>: every field is optional. The numeric settings are
  modelled as integers (they count characters, seconds and chunks).
\<close>

record QualityGuardConfig =
  enabled :: "bool option"
  minResponseChars :: "int option"
  stallTimeoutSeconds :: "int option"
  loopThreshold :: "int option"
  loopMinChunkLength :: "int option"

text \<open>\<^verbatim>\<open>Required<QualityGuardConfig>\<close>, the type of the merged configuration.\<close>

record RequiredConfig =
  r_enabled :: bool
  r_minResponseChars :: int
  r_stallTimeoutSeconds :: int
  r_loopThreshold :: int
  r_loopMinChunkLength :: int

record QualityGuardState =
  chunks :: "jsstring list"
  totalChars :: nat
  firstChunkAt :: "int option"
  startedAt :: int

text \<open>The optional \<^verbatim>\<open>{ provider?, model? }\<close> argument of the three checks.\<close>

record GuardContext =
  ctx_provider :: "jsstring option"
  ctx_model :: "jsstring option"

text \<open>
  Modelled from the spec: the module \<^verbatim>\<open>failover-error.js\<close> that declares
  \<^verbatim>\<open>FailoverError\<close> and its reason codes is not among the sources. The reason is
  ``one of timeout, context_overflow, rate_limit, auth, unknown'', and the signal carries
  the optional provider and model of the context.
\<close>

datatype FailoverReason = timeout | context_overflow | rate_limit | auth | unknown

text \<open>
  A \<^verbatim>\<open>FailoverError\<close>. The message text is represented by the check that built it;
  the reason, provider and model are the fields the source passes to the constructor.
\<close>

datatype Detection = Stalled | InsufficientOutput | LoopingDetected | HeavilyRepetitive

record FailoverError =
  detection :: Detection
  reason :: FailoverReason
  err_provider :: "jsstring option"
  err_model :: "jsstring option"

definition DEFAULT_CONFIG :: RequiredConfig where
  "DEFAULT_CONFIG = \<lparr> r_enabled = True, r_minResponseChars = 10, r_stallTimeoutSeconds = 30,
     r_loopThreshold = 3, r_loopMinChunkLength = 20 \<rparr>"

text \<open>
  \<^verbatim>\<open>{ ...DEFAULT_CONFIG, ...config }\<close>: a field present in \<open>config\<close> replaces the
  default, an absent field or an absent \<open>config\<close> keeps it.
\<close>

definition mergeConfig :: "QualityGuardConfig option \<Rightarrow> RequiredConfig" where
  "mergeConfig config =
     (case config of
        None \<Rightarrow> DEFAULT_CONFIG
      | Some c \<Rightarrow>
          \<lparr> r_enabled = (case enabled c of None \<Rightarrow> r_enabled DEFAULT_CONFIG | Some v \<Rightarrow> v),
            r_minResponseChars =
              (case minResponseChars c of None \<Rightarrow> r_minResponseChars DEFAULT_CONFIG | Some v \<Rightarrow> v),
            r_stallTimeoutSeconds =
              (case stallTimeoutSeconds c of None \<Rightarrow> r_stallTimeoutSeconds DEFAULT_CONFIG | Some v \<Rightarrow> v),
            r_loopThreshold =
              (case loopThreshold c of None \<Rightarrow> r_loopThreshold DEFAULT_CONFIG | Some v \<Rightarrow> v),
            r_loopMinChunkLength =
              (case loopMinChunkLength c of None \<Rightarrow> r_loopMinChunkLength DEFAULT_CONFIG | Some v \<Rightarrow> v) \<rparr>)"

definition failover :: "Detection \<Rightarrow> FailoverReason \<Rightarrow> GuardContext option \<Rightarrow> FailoverError" where
  "failover d r context =
     \<lparr> detection = d, reason = r,
       err_provider = (case context of None \<Rightarrow> None | Some x \<Rightarrow> ctx_provider x),
       err_model = (case context of None \<Rightarrow> None | Some x \<Rightarrow> ctx_model x) \<rparr>"

text \<open>\<^verbatim>\<open>Date.now()\<close> is the argument \<open>now\<close> (milliseconds) of every function that reads the clock.\<close>

definition createQualityGuardState :: "int \<Rightarrow> QualityGuardState" where
  "createQualityGuardState now = \<lparr> chunks = [], totalChars = 0, firstChunkAt = None, startedAt = now \<rparr>"

subsection \<open>Repetition ratio\<close>

text \<open>
  The \<^verbatim>\<open>while ((pos = text.indexOf(segment, pos)) !== -1)\<close> loop of
  \<^verbatim>\<open>detectRepetitionRatio\<close>. With a window size of 0 the source loop would not end,
  so the loop is a partial function: \<open>None\<close> stands for not returning.
\<close>

partial_function (option) countSegments :: "jsstring \<Rightarrow> jsstring \<Rightarrow> nat \<Rightarrow> nat \<Rightarrow> nat \<Rightarrow> nat option" where
  "countSegments text segment windowSize pos occurrences =
     (case indexOf text segment pos of
        None \<Rightarrow> Some occurrences
      | Some p \<Rightarrow> countSegments text segment windowSize (p + windowSize) (Suc occurrences))"

declare countSegments.simps [code]

definition detectRepetitionRatio :: "jsstring \<Rightarrow> real option" where
  "detectRepetitionRatio text =
     (if length text < 100 then Some 0
      else
        let windowSize = min 100 (length text div 4);
            segment = take windowSize text
        in case countSegments text segment windowSize 0 0 of
             None \<Rightarrow> None
           | Some occurrences \<Rightarrow>
               if occurrences \<le> 1 then Some 0
               else Some (real (occurrences * windowSize) / real (length text)))"

subsection \<open>Loop detection\<close>

text \<open>
  The backward \<^verbatim>\<open>for\<close> loop of \<^verbatim>\<open>checkForLooping\<close>, run over the chunks at the
  indices \<open>length - 2\<close> down to \<open>0\<close> of the recent window, in that order.
\<close>

fun countRepeats :: "(jsstring \<Rightarrow> jsstring) \<Rightarrow> jsstring list \<Rightarrow> jsstring \<Rightarrow> int \<Rightarrow> int \<Rightarrow> int" where
  "countRepeats toLowerCase [] normalized threshold repeatCount = repeatCount"
| "countRepeats toLowerCase (c # cs) normalized threshold repeatCount =
     (if repeatCount < threshold then
        (if toLowerCase (trim c) = normalized
         then countRepeats toLowerCase cs normalized threshold (repeatCount + 1)
         else repeatCount)
      else repeatCount)"

text \<open>
  \<^verbatim>\<open>checkForLooping\<close> reads the state and either returns or throws; \<open>Inl\<close> is the
  thrown error, the outer \<open>None\<close> is a run that does not return.
\<close>

definition checkForLooping ::
  "(jsstring \<Rightarrow> jsstring) \<Rightarrow> QualityGuardState \<Rightarrow> jsstring \<Rightarrow> RequiredConfig \<Rightarrow> GuardContext option \<Rightarrow> (FailoverError + unit) option" where
  "checkForLooping toLowerCase state currentChunk cfg context =
     (let recentChunks = slice_from (chunks state) (- r_loopThreshold cfg * 2) in
      if int (length recentChunks) < r_loopThreshold cfg then Some (Inr ())
      else
        let normalized = toLowerCase (trim currentChunk);
            repeatCount = countRepeats toLowerCase (rev (butlast recentChunks)) normalized (r_loopThreshold cfg) 0
        in
          if repeatCount \<ge> r_loopThreshold cfg - 1 then Some (Inl (failover LoopingDetected unknown context))
          else if totalChars state > 500 then
            (case detectRepetitionRatio (concat (chunks state)) of
               None \<Rightarrow> None
             | Some repetitionRatio \<Rightarrow>
                 if repetitionRatio > 0.6 then Some (Inl (failover HeavilyRepetitive unknown context))
                 else Some (Inr ()))
          else Some (Inr ()))"

subsection \<open>The three checks\<close>

text \<open>
  Each check returns the outcome (\<open>Inl\<close> the thrown \<^verbatim>\<open>FailoverError\<close>) together with
  the state as the call leaves it: the source mutates the state before it throws.
\<close>

definition checkStreamingChunk ::
  "(jsstring \<Rightarrow> jsstring) \<Rightarrow> QualityGuardState \<Rightarrow> jsstring \<Rightarrow> QualityGuardConfig option \<Rightarrow> GuardContext option \<Rightarrow> int
     \<Rightarrow> ((FailoverError + unit) \<times> QualityGuardState) option" where
  "checkStreamingChunk toLowerCase state chunk config context now =
     (let cfg = mergeConfig config in
      if \<not> r_enabled cfg then Some (Inr (), state)
      else
        let state1 =
              (if (firstChunkAt state = None \<or> firstChunkAt state = Some 0) \<and> length chunk > 0
               then state\<lparr> firstChunkAt := Some now \<rparr> else state);
            state2 = state1\<lparr> chunks := chunks state1 @ [chunk] \<rparr>;
            state3 = state2\<lparr> totalChars := totalChars state2 + length chunk \<rparr>
        in
          if int (length chunk) \<ge> r_loopMinChunkLength cfg then
            (case checkForLooping toLowerCase state3 chunk cfg context of
               None \<Rightarrow> None
             | Some r \<Rightarrow> Some (r, state3))
          else Some (Inr (), state3))"

definition checkForStall ::
  "QualityGuardState \<Rightarrow> QualityGuardConfig option \<Rightarrow> GuardContext option \<Rightarrow> int
     \<Rightarrow> (FailoverError + unit) \<times> QualityGuardState" where
  "checkForStall state config context now =
     (let cfg = mergeConfig config in
      if \<not> r_enabled cfg then (Inr (), state)
      else
        let elapsed = real_of_int (now - startedAt state) / 1000 in
        if elapsed > real_of_int (r_stallTimeoutSeconds cfg) \<and> firstChunkAt state = None
        then (Inl (failover Stalled timeout context), state)
        else (Inr (), state))"

definition checkFinalResponse ::
  "QualityGuardState \<Rightarrow> QualityGuardConfig option \<Rightarrow> GuardContext option
     \<Rightarrow> (FailoverError + unit) \<times> QualityGuardState" where
  "checkFinalResponse state config context =
     (let cfg = mergeConfig config in
      if \<not> r_enabled cfg then (Inr (), state)
      else if int (totalChars state) < r_minResponseChars cfg
      then (Inl (failover InsufficientOutput unknown context), state)
      else (Inr (), state))"

subsection \<open>Auxiliary notions for the supervisor\<close>

text \<open>
  The state that an enabled \<^verbatim>\<open>checkStreamingChunk\<close> leaves behind: the first-chunk
  time stamp set when it was unset and the chunk is not empty, the chunk appended, the
  character total increased.
\<close>

definition recorded :: "QualityGuardState \<Rightarrow> jsstring \<Rightarrow> int \<Rightarrow> QualityGuardState" where
  "recorded state chunk now =
     \<lparr> chunks = chunks state @ [chunk],
       totalChars = totalChars state + length chunk,
       firstChunkAt =
         (if (firstChunkAt state = None \<or> firstChunkAt state = Some 0) \<and> length chunk > 0
          then Some now else firstChunkAt state),
       startedAt = startedAt state \<rparr>"

text \<open>
  The number of consecutive chunks, counted backwards from the most recent of
  \<open>previous\<close>, whose trimmed and lower-cased text equals that of \<open>current\<close>.
\<close>

definition precedingRun :: "(jsstring \<Rightarrow> jsstring) \<Rightarrow> jsstring list \<Rightarrow> jsstring \<Rightarrow> nat" where
  "precedingRun toLowerCase previous current =
     length (takeWhile (\<lambda>c. toLowerCase (trim c) = toLowerCase (trim current)) (rev previous))"

text \<open>
  A caller's use of one state: a sequence of supervisor calls. \<open>runOps\<close> goes on after
  a call that throws, as a caller that catches the error would; \<open>None\<close> is a call that
  does not return.
\<close>

datatype GuardOp =
    Ingest jsstring "QualityGuardConfig option" "GuardContext option" int
  | StallCheck "QualityGuardConfig option" "GuardContext option" int
  | Finalize "QualityGuardConfig option" "GuardContext option"

fun applyOp :: "(jsstring \<Rightarrow> jsstring) \<Rightarrow> QualityGuardState \<Rightarrow> GuardOp \<Rightarrow> ((FailoverError + unit) \<times> QualityGuardState) option" where
  "applyOp toLowerCase s (Ingest chunk config context now) = checkStreamingChunk toLowerCase s chunk config context now"
| "applyOp toLowerCase s (StallCheck config context now) = Some (checkForStall s config context now)"
| "applyOp toLowerCase s (Finalize config context) = Some (checkFinalResponse s config context)"

fun runOps :: "(jsstring \<Rightarrow> jsstring) \<Rightarrow> QualityGuardState \<Rightarrow> GuardOp list \<Rightarrow> QualityGuardState option" where
  "runOps toLowerCase s [] = Some s"
| "runOps toLowerCase s (x # xs) = (case applyOp toLowerCase s x of None \<Rightarrow> None | Some (r, s') \<Rightarrow> runOps toLowerCase s' xs)"

text \<open>The chunks that a sequence of calls ingests: those of the enabled ingest calls.\<close>

fun ingested :: "GuardOp list \<Rightarrow> jsstring list" where
  "ingested [] = []"
| "ingested (Ingest chunk config context now # xs) =
     (if r_enabled (mergeConfig config) then chunk # ingested xs else ingested xs)"
| "ingested (StallCheck config context now # xs) = ingested xs"
| "ingested (Finalize config context # xs) = ingested xs"

fun nonEmptyIngest :: "GuardOp \<Rightarrow> bool" where
  "nonEmptyIngest (Ingest chunk config context now) = (chunk \<noteq> [] \<and> r_enabled (mergeConfig config))"
| "nonEmptyIngest (StallCheck config context now) = False"
| "nonEmptyIngest (Finalize config context) = False"

text \<open>
  Feeding chunks one after the other until a call throws, as in
  \<^verbatim>\<open>for (...) checkStreamingChunk(state, chunk)\<close>: the result is the first error.
\<close>

fun feedChunks ::
  "(jsstring \<Rightarrow> jsstring) \<Rightarrow> QualityGuardState \<Rightarrow> (jsstring \<times> int) list \<Rightarrow> QualityGuardConfig option \<Rightarrow> GuardContext option
     \<Rightarrow> (FailoverError + unit) option" where
  "feedChunks toLowerCase s [] config context = Some (Inr ())"
| "feedChunks toLowerCase s ((chunk, now) # rest) config context =
     (case checkStreamingChunk toLowerCase s chunk config context now of
        None \<Rightarrow> None
      | Some (Inl e, s') \<Rightarrow> Some (Inl e)
      | Some (Inr u, s') \<Rightarrow> feedChunks toLowerCase s' rest config context)"

subsection \<open>The repetition ratio in the words of the specification\<close>

text \<open>
  The non-overlapping occurrences of a segment in a text, counted from the left: an
  occurrence counts when it does not start within \<open>w\<close> code units after the start of
  the occurrence counted before it. The last argument is the number of code units still
  covered by that occurrence.
\<close>

fun nonOverlappingOccurrences :: "jsstring \<Rightarrow> nat \<Rightarrow> jsstring \<Rightarrow> nat \<Rightarrow> nat" where
  "nonOverlappingOccurrences segment w [] covered = 0"
| "nonOverlappingOccurrences segment w (x # xs) covered =
     (if covered > 0 then nonOverlappingOccurrences segment w xs (covered - 1)
      else if prefix segment (x # xs) then Suc (nonOverlappingOccurrences segment w xs (w - 1))
      else nonOverlappingOccurrences segment w xs 0)"

text \<open>
  The fraction of a text covered by the non-overlapping occurrences of its leading
  segment of \<open>min 100 (length text div 4)\<close> code units, the leading occurrence
  included; 0 for a text of fewer than 100 code units and when the segment occurs only once.
\<close>

definition coveredFraction :: "jsstring \<Rightarrow> real" where
  "coveredFraction text =
     (let w = min 100 (length text div 4);
          n = nonOverlappingOccurrences (take w text) w text 0
      in if length text < 100 \<or> n \<le> 1 then 0 else real (n * w) / real (length text))"


section \<open>Task classifier\<close>

datatype TaskType = code | reasoning | creative | translation | general

subsection \<open>Regular expressions\<close>

text \<open>
  The regular expressions of the classifier use literal characters, character classes
  (\<^verbatim>\<open>\s\<close>, \<^verbatim>\<open>\S\<close>, \<^verbatim>\<open>\d\<close>, \<^verbatim>\<open>[\s\S]\<close>, bracket lists), the quantifiers
  \<^verbatim>\<open>*\<close> and \<^verbatim>\<open>+\<close> on a character class only, \<^verbatim>\<open>?\<close>, alternation, sequence, the
  word boundary \<^verbatim>\<open>\b\<close> and, on most of them, the flag \<^verbatim>\<open>i\<close>. The datatype has
  these constructs and no others.

  Under the flag \<^verbatim>\<open>i\<close> two code units match when their canonical forms (the upper
  case of a single code unit, never from a non-ASCII unit to an ASCII one) are equal.
  \<open>canonicalize\<close> gives the canonical form for Basic Latin and Latin-1, which decides
  every comparison with a character of these expressions.
\<close>

definition canonicalize :: "nat \<Rightarrow> nat" where
  "canonicalize c =
     (if (97 \<le> c \<and> c \<le> 122) \<or> (224 \<le> c \<and> c \<le> 254 \<and> c \<noteq> 247) then c - 32
      else if c = 255 then 376
      else if c = 181 then 924
      else c)"

datatype charclass =
    Unit nat
  | UnitI nat
  | OneOf "nat list"
  | OneOfI "nat list"
  | Space
  | NonSpace
  | Digit
  | AnyUnit

fun inClass :: "charclass \<Rightarrow> nat \<Rightarrow> bool" where
  "inClass (Unit p) c = (c = p)"
| "inClass (UnitI p) c = (canonicalize c = canonicalize p)"
| "inClass (OneOf ps) c = (c \<in> set ps)"
| "inClass (OneOfI ps) c = (canonicalize c \<in> set (map canonicalize ps))"
| "inClass Space c = isWhiteSpace c"
| "inClass NonSpace c = (\<not> isWhiteSpace c)"
| "inClass Digit c = (48 \<le> c \<and> c \<le> 57)"
| "inClass AnyUnit c = True"

datatype regex =
    Empty
  | Chr charclass
  | Star charclass
  | Plus charclass
  | Opt regex
  | Seq regex regex
  | Alt regex regex
  | WordBoundary

text \<open>The word characters of \<^verbatim>\<open>\b\<close>: \<^verbatim>\<open>[A-Za-z0-9_]\<close>.\<close>

definition isWordChar :: "nat \<Rightarrow> bool" where
  "isWordChar c \<longleftrightarrow> (48 \<le> c \<and> c \<le> 57) \<or> (65 \<le> c \<and> c \<le> 90) \<or> c = 95 \<or> (97 \<le> c \<and> c \<le> 122)"

text \<open>
  A position in the input: the code unit before it, if any, and the input from it on.
  \<open>rmatch r p\<close> lists the positions at which a match of \<open>r\<close> that starts at \<open>p\<close>
  can end, which is all that \<^verbatim>\<open>RegExp.prototype.test\<close> depends on.
\<close>

type_synonym position = "nat option \<times> nat list"

fun atBoundary :: "position \<Rightarrow> bool" where
  "atBoundary (prev, rest) =
     ((case prev of None \<Rightarrow> False | Some c \<Rightarrow> isWordChar c)
        \<noteq> (case rest of [] \<Rightarrow> False | c # cs \<Rightarrow> isWordChar c))"

fun starEnds :: "charclass \<Rightarrow> position \<Rightarrow> position list" where
  "starEnds cl (prev, []) = [(prev, [])]"
| "starEnds cl (prev, c # cs) =
     (prev, c # cs) # (if inClass cl c then starEnds cl (Some c, cs) else [])"

fun chrEnds :: "charclass \<Rightarrow> position \<Rightarrow> position list" where
  "chrEnds cl (prev, []) = []"
| "chrEnds cl (prev, c # cs) = (if inClass cl c then [(Some c, cs)] else [])"

fun rmatch :: "regex \<Rightarrow> position \<Rightarrow> position list" where
  "rmatch Empty p = [p]"
| "rmatch (Chr cl) p = chrEnds cl p"
| "rmatch (Star cl) p = starEnds cl p"
| "rmatch (Plus cl) p = concat (map (starEnds cl) (chrEnds cl p))"
| "rmatch (Opt r) p = rmatch r p @ [p]"
| "rmatch (Seq r1 r2) p = concat (map (rmatch r2) (rmatch r1 p))"
| "rmatch (Alt r1 r2) p = rmatch r1 p @ rmatch r2 p"
| "rmatch WordBoundary p = (if atBoundary p then [p] else [])"

fun positions :: "nat option \<Rightarrow> nat list \<Rightarrow> position list" where
  "positions prev [] = [(prev, [])]"
| "positions prev (c # cs) = (prev, c # cs) # positions (Some c) cs"

text \<open>\<^verbatim>\<open>pattern.test(prompt)\<close>: some match starts at some position of the prompt.\<close>

definition test :: "regex \<Rightarrow> jsstring \<Rightarrow> bool" where
  "test r s = list_ex (\<lambda>p. rmatch r p \<noteq> []) (positions None s)"

subsection \<open>Writing the expressions\<close>

definition lit :: "string \<Rightarrow> regex" where
  "lit s = foldr (\<lambda>c r. Seq (Chr (Unit (of_char c))) r) s Empty"

definition liti :: "string \<Rightarrow> regex" where
  "liti s = foldr (\<lambda>c r. Seq (Chr (UnitI (of_char c))) r) s Empty"

fun alts :: "regex list \<Rightarrow> regex" where
  "alts [] = Chr (OneOf [])"
| "alts [r] = r"
| "alts (r # rs) = Alt r (alts rs)"

definition seqs :: "regex list \<Rightarrow> regex" where
  "seqs rs = foldr Seq rs Empty"

text \<open>\<^verbatim>\<open>\s+\<close> and \<^verbatim>\<open>\s*\<close>.\<close>

definition sp :: regex where
  "sp = Plus Space"

definition sps :: regex where
  "sps = Star Space"

text \<open>\<^verbatim>\<open>/\b(?:w1|w2|...)\b/i\<close> for alternatives that are plain words.\<close>

definition wordsI :: "string list \<Rightarrow> regex" where
  "wordsI ws = seqs [WordBoundary, alts (map liti ws), WordBoundary]"

text \<open>\<^verbatim>\<open>(?:and|&)\<close>\<close>

definition andOrAmp :: regex where
  "andOrAmp = alts [liti ''and'', liti ''&'']"

subsection \<open>The pattern sets\<close>

definition CODE_PATTERNS :: "regex list" where
  "CODE_PATTERNS =
     [ wordsI [''function'', ''class'', ''const'', ''let'', ''var'', ''import'', ''export'', ''return'',
               ''async'', ''await''],
       wordsI [''implement'', ''refactor'', ''debug'', ''bugfix'', ''compile'', ''build'', ''deploy'', ''lint''],
       wordsI [''api'', ''endpoint'', ''database'', ''schema'', ''migration'', ''query'', ''sql''],
       wordsI [''component'', ''hook'', ''state'', ''props'', ''render'', ''dom'', ''css'', ''html''],
       wordsI [''test'', ''spec'', ''assert'', ''mock'', ''stub'', ''fixture''],
       seqs [WordBoundary,
             alts [liti ''git'', liti ''commit'', liti ''merge'', liti ''branch'',
                   seqs [liti ''pull'', sps, liti ''request''], liti ''pr''],
             WordBoundary],
       wordsI [''npm'', ''pnpm'', ''yarn'', ''pip'', ''cargo'', ''docker'', ''kubernetes''],
       seqs [lit ''.'', WordBoundary,
             alts (map lit [''ts'', ''tsx'', ''js'', ''jsx'', ''py'', ''rs'', ''go'', ''java'', ''cpp'', ''c'',
                            ''rb'', ''swift'', ''kt'']),
             WordBoundary],
       seqs [lit ''```'', Star AnyUnit, lit ''```''],
       seqs [alts [liti ''error'', liti ''exception'', liti ''traceback'',
                   seqs [liti ''stack'', sps, liti ''trace'']],
             sps, liti '':''],
       seqs [WordBoundary, lit ''at'', Plus Space, Plus NonSpace, Star Space, lit ''('', Plus NonSpace,
             lit '':'', Plus Digit, lit '':'', Plus Digit, lit '')''] ]"

definition REASONING_PATTERNS :: "regex list" where
  "REASONING_PATTERNS =
     [ seqs [WordBoundary, liti ''explain'', sp, alts [liti ''why'', liti ''how'', liti ''what''], WordBoundary],
       wordsI [''analyze'', ''analyse'', ''evaluate'', ''compare'', ''contrast'', ''assess''],
       seqs [WordBoundary,
             alts [seqs [liti ''think'', sp, liti ''through''],
                   seqs [liti ''step'', sp, liti ''by'', sp, liti ''step''],
                   liti ''reasoning'', liti ''logic''],
             WordBoundary],
       seqs [WordBoundary,
             alts [seqs [liti ''pro'', Opt (liti ''s''), sp, andOrAmp, sp, liti ''con'', Opt (liti ''s'')],
                   seqs [liti ''trade'', Opt (liti ''-''), liti ''off'', Opt (liti ''s'')],
                   seqs [liti ''advantage'', Opt (liti ''s''), sp, andOrAmp, sp,
                         liti ''disadvantage'', Opt (liti ''s'')]],
             WordBoundary],
       wordsI [''calculate'', ''equation'', ''formula'', ''theorem'', ''proof'', ''derive''],
       wordsI [''cause'', ''effect'', ''consequence'', ''implication'', ''hypothesis''],
       Chr (OneOf [8721, 8719, 8747, 8730, 8706, 8711, 8776, 8800, 8804, 8805, 177, 215, 247]),
       wordsI [''sigma'', ''integral'', ''derivative'', ''matrix'', ''vector''] ]"

definition CREATIVE_PATTERNS :: "regex list" where
  "CREATIVE_PATTERNS =
     [ seqs [WordBoundary, liti ''write'', sp, Opt (seqs [liti ''a'', sp]),
             alts (map liti [''story'', ''poem'', ''haiku'', ''song'', ''lyrics'', ''script'', ''essay'',
                             ''letter'', ''blog'']),
             WordBoundary],
       wordsI [''creative'', ''brainstorm'', ''imagine'', ''fiction'', ''narrative'', ''character''],
       wordsI [''tone'', ''voice'', ''style'', ''mood'', ''metaphor'', ''analogy''],
       seqs [WordBoundary, alts [liti ''rewrite'', liti ''paraphrase'', liti ''rephrase''], sp,
             alts [liti ''this'', liti ''the'', liti ''in''], WordBoundary],
       wordsI [''copywriting'', ''tagline'', ''slogan'', ''headline'', ''pitch''] ]"

definition TRANSLATION_PATTERNS :: "regex list" where
  "TRANSLATION_PATTERNS =
     [ wordsI [''translate'', ''translation'', ''translator''],
       seqs [WordBoundary, alts [liti ''in'', liti ''to'', liti ''into''], sp,
             alts (map liti [''polish'', ''french'', ''german'', ''spanish'', ''italian'', ''portuguese'',
                             ''chinese'', ''japanese'', ''korean'', ''arabic'', ''russian'', ''hindi'',
                             ''turkish'', ''dutch'', ''swedish'', ''czech'', ''slovak'', ''hungarian'',
                             ''romanian'', ''greek'', ''thai'', ''vietnamese'', ''indonesian'', ''malay'',
                             ''filipino'', ''hebrew'', ''farsi'', ''persian'', ''ukrainian'', ''bengali'',
                             ''tamil'', ''telugu'', ''marathi'', ''gujarati'', ''kannada'', ''malayalam'',
                             ''urdu'', ''swahili'']),
             WordBoundary],
       seqs [WordBoundary,
             alts [seqs [liti ''po'', sp, liti ''polsku''],
                   seqs [liti ''na'', sp, liti ''polski''],
                   seqs [liti ''en'', sp, liti ''fran'', Chr (OneOfI [99, 231]), liti ''ais''],
                   seqs [liti ''auf'', sp, liti ''deutsch''],
                   seqs [liti ''en'', sp, liti ''espa'', Chr (OneOfI [110, 241]), liti ''ol'']],
             WordBoundary],
       wordsI [''localize'', ''localization'', ''i18n'', ''l10n''] ]"

subsection \<open>Scoring\<close>

text \<open>One \<^verbatim>\<open>for (const pattern of ...)\<close> loop: the score grows by one for each pattern that matches.\<close>

fun scorePatterns :: "regex list \<Rightarrow> jsstring \<Rightarrow> nat \<Rightarrow> nat" where
  "scorePatterns [] prompt score = score"
| "scorePatterns (pattern # rest) prompt score =
     (if test pattern prompt then scorePatterns rest prompt (score + 1)
      else scorePatterns rest prompt score)"

text \<open>
  The loop over \<^verbatim>\<open>Object.entries(scores)\<close>, which come in the order in which the keys
  were written: code, reasoning, creative, translation, general.
\<close>

fun pickBest :: "(TaskType \<times> nat) list \<Rightarrow> TaskType \<Rightarrow> nat \<Rightarrow> TaskType" where
  "pickBest [] best bestScore = best"
| "pickBest ((type, score) # rest) best bestScore =
     (if type = general then pickBest rest best bestScore
      else if score > bestScore then pickBest rest type score
      else pickBest rest best bestScore)"

text \<open>
  The prompt is \<open>None\<close> when the argument is \<^verbatim>\<open>null\<close>, \<^verbatim>\<open>undefined\<close> or not a
  string; the empty string is the other falsy prompt.
\<close>

definition classifyTaskType :: "jsstring option \<Rightarrow> TaskType" where
  "classifyTaskType prompt =
     (case prompt of
        None \<Rightarrow> general
      | Some p \<Rightarrow>
          if p = [] then general
          else
            pickBest
              [ (code, scorePatterns CODE_PATTERNS p 0),
                (reasoning, scorePatterns REASONING_PATTERNS p 0),
                (creative, scorePatterns CREATIVE_PATTERNS p 0),
                (translation, scorePatterns TRANSLATION_PATTERNS p 0),
                (general, 0) ]
              general 0)"

text \<open>The number of patterns of a set that match a prompt.\<close>

definition matchCount :: "regex list \<Rightarrow> jsstring \<Rightarrow> nat" where
  "matchCount patterns prompt = length (filter (\<lambda>pattern. test pattern prompt) patterns)"

text \<open>
  A sufficient syntactic condition for ``every match contains a code unit that is not
  white space'': used to show that no pattern matches a prompt of white space only.
\<close>

fun visibleClass :: "charclass \<Rightarrow> bool" where
  "visibleClass (Unit p) = (\<not> isWhiteSpace p)"
| "visibleClass (UnitI p) = (\<not> isWhiteSpace p)"
| "visibleClass (OneOf ps) = list_all (\<lambda>p. \<not> isWhiteSpace p) ps"
| "visibleClass (OneOfI ps) = list_all (\<lambda>p. \<not> isWhiteSpace p) ps"
| "visibleClass Space = False"
| "visibleClass NonSpace = True"
| "visibleClass Digit = True"
| "visibleClass AnyUnit = False"

fun needsVisible :: "regex \<Rightarrow> bool" where
  "needsVisible Empty = False"
| "needsVisible (Chr cl) = visibleClass cl"
| "needsVisible (Star cl) = False"
| "needsVisible (Plus cl) = visibleClass cl"
| "needsVisible (Opt r) = False"
| "needsVisible (Seq r1 r2) = (needsVisible r1 \<or> needsVisible r2)"
| "needsVisible (Alt r1 r2) = (needsVisible r1 \<and> needsVisible r2)"
| "needsVisible WordBoundary = False"


section \<open>Token budget\<close>

record ModelCandidate =
  provider :: jsstring
  model :: jsstring

text \<open>
  Modelled from the spec: the module \<^verbatim>\<open>provider-usage.types.js\<close> that declares
  \<^verbatim>\<open>UsageSummary\<close> and \<^verbatim>\<open>UsageProviderId\<close> is not among the sources. The usage
  snapshot is \<^verbatim>\<open>{ providers: [ { provider: <canonical-id>, windows: [ { usedPercent:
  number, resetAt?: epoch-ms } ] } ] }\<close>; only the fields that the code reads are kept.
  A canonical provider id is a string at run time. A usage percentage is a real number
  (the comparisons of the code never see \<^verbatim>\<open>NaN\<close> in this model).
\<close>

record UsageWindow =
  usedPercent :: real
  resetAt :: "int option"

record ProviderUsageSnapshot =
  usage_provider :: jsstring
  windows :: "UsageWindow list"

record UsageSummary =
  providers :: "ProviderUsageSnapshot list"

record BudgetStatus =
  status_provider :: jsstring
  status_usedPercent :: real
  isExhausted :: bool
  status_resetAt :: "int option"

definition EXHAUSTION_THRESHOLD :: real where
  "EXHAUSTION_THRESHOLD = 90"

definition DEPRIORITIZE_THRESHOLD :: real where
  "DEPRIORITIZE_THRESHOLD = 75"

text \<open>
  The \<^verbatim>\<open>mapping\<close> object of \<^verbatim>\<open>mapToUsageProviderId\<close>, as the list of its own
  properties. (A name such as \<^verbatim>\<open>constructor\<close>, which the source finds on the
  prototype of the object, yields a value that is not a provider id and equals no
  snapshot's provider; the status it leads to is that of an unmapped name.)
\<close>

definition usageProviderIds :: "(jsstring \<times> jsstring) list" where
  "usageProviderIds =
     [ (js ''anthropic'', js ''anthropic''),
       (js ''openai-codex'', js ''openai-codex''),
       (js ''openai'', js ''openai-codex''),
       (js ''google-antigravity'', js ''google-antigravity''),
       (js ''google-gemini-cli'', js ''google-gemini-cli''),
       (js ''google'', js ''google-antigravity''),
       (js ''github-copilot'', js ''github-copilot''),
       (js ''minimax'', js ''minimax''),
       (js ''xiaomi'', js ''xiaomi''),
       (js ''zai'', js ''zai'') ]"

definition mapToUsageProviderId :: "(jsstring \<Rightarrow> jsstring) \<Rightarrow> jsstring \<Rightarrow> jsstring option" where
  "mapToUsageProviderId toLowerCase p = (let normalized = trim (toLowerCase p) in map_of usageProviderIds normalized)"

text \<open>
  The \<^verbatim>\<open>for (const window of snapshot.windows)\<close> loop of \<^verbatim>\<open>getProviderBudget\<close>,
  with its two variables \<open>maxUsed\<close> and \<open>nearestReset\<close>.
\<close>

fun scanWindows :: "UsageWindow list \<Rightarrow> real \<Rightarrow> int option \<Rightarrow> real \<times> int option" where
  "scanWindows [] maxUsed nearestReset = (maxUsed, nearestReset)"
| "scanWindows (w # ws) maxUsed nearestReset =
     (if usedPercent w > maxUsed then scanWindows ws (usedPercent w) (resetAt w)
      else scanWindows ws maxUsed nearestReset)"

definition defaultStatus :: "jsstring \<Rightarrow> BudgetStatus" where
  "defaultStatus p = \<lparr> status_provider = p, status_usedPercent = 0, isExhausted = False, status_resetAt = None \<rparr>"

definition getProviderBudget :: "(jsstring \<Rightarrow> jsstring) \<Rightarrow> jsstring \<Rightarrow> UsageSummary option \<Rightarrow> BudgetStatus" where
  "getProviderBudget toLowerCase p usageSummary =
     (case usageSummary of
        None \<Rightarrow> defaultStatus p
      | Some summary \<Rightarrow>
          (case mapToUsageProviderId toLowerCase p of
             None \<Rightarrow> defaultStatus p
           | Some usageId \<Rightarrow>
               (case find (\<lambda>s. usage_provider s = usageId) (providers summary) of
                  None \<Rightarrow> defaultStatus p
                | Some snapshot \<Rightarrow>
                    if length (windows snapshot) = 0 then defaultStatus p
                    else
                      (case scanWindows (windows snapshot) 0 None of
                         (maxUsed, nearestReset) \<Rightarrow>
                           \<lparr> status_provider = p, status_usedPercent = maxUsed,
                             isExhausted = (maxUsed \<ge> EXHAUSTION_THRESHOLD),
                             status_resetAt = nearestReset \<rparr>))))"

text \<open>
  The \<^verbatim>\<open>for (const candidate of candidates)\<close> loop of \<^verbatim>\<open>filterByBudget\<close>: each
  candidate is pushed onto one of the three arrays.
\<close>

fun bucketCandidates ::
  "(jsstring \<Rightarrow> jsstring) \<Rightarrow> ModelCandidate list \<Rightarrow> UsageSummary option \<Rightarrow> ModelCandidate list \<Rightarrow> ModelCandidate list \<Rightarrow> ModelCandidate list
     \<Rightarrow> ModelCandidate list \<times> ModelCandidate list \<times> ModelCandidate list" where
  "bucketCandidates toLowerCase [] usageSummary fresh highUsage exhausted = (fresh, highUsage, exhausted)"
| "bucketCandidates toLowerCase (candidate # rest) usageSummary fresh highUsage exhausted =
     (let budget = getProviderBudget toLowerCase (provider candidate) usageSummary in
      if isExhausted budget then bucketCandidates toLowerCase rest usageSummary fresh highUsage (exhausted @ [candidate])
      else if status_usedPercent budget \<ge> DEPRIORITIZE_THRESHOLD
      then bucketCandidates toLowerCase rest usageSummary fresh (highUsage @ [candidate]) exhausted
      else bucketCandidates toLowerCase rest usageSummary (fresh @ [candidate]) highUsage exhausted)"

definition filterByBudget :: "(jsstring \<Rightarrow> jsstring) \<Rightarrow> ModelCandidate list \<Rightarrow> UsageSummary option \<Rightarrow> ModelCandidate list" where
  "filterByBudget toLowerCase candidates usageSummary =
     (if usageSummary = None \<or> length candidates \<le> 1 then candidates
      else
        (case bucketCandidates toLowerCase candidates usageSummary [] [] [] of
           (fresh, highUsage, exhausted) \<Rightarrow> fresh @ highUsage @ exhausted))"

text \<open>The usage percentage that the budget filter sees for a candidate.\<close>

definition budgetPercent :: "(jsstring \<Rightarrow> jsstring) \<Rightarrow> UsageSummary \<Rightarrow> ModelCandidate \<Rightarrow> real" where
  "budgetPercent toLowerCase summary candidate = status_usedPercent (getProviderBudget toLowerCase (provider candidate) (Some summary))"

text \<open>The first window of a list whose usage percentage is \<open>m\<close>.\<close>

definition firstWindowAt :: "UsageWindow list \<Rightarrow> real \<Rightarrow> UsageWindow option" where
  "firstWindowAt ws m = find (\<lambda>w. usedPercent w = m) ws"


section \<open>Smart routing\<close>

record SmartRoutingConfig =
  routing_enabled :: "bool option"
  rules :: "(TaskType \<Rightarrow> jsstring list option) option"

text \<open>
  Modelled from the spec: the module \<^verbatim>\<open>config.js\<close> that declares
  \<^verbatim>\<open>OpenClawConfig\<close> is not among the sources. The routing reads one value of it,
  \<^verbatim>\<open>cfg.agents.defaults.smartRouting\<close>, the ``affinity enable flag'' and the ``affinity
  table override''; the field is \<open>None\<close> when that value is missing or is not an object.
\<close>

record OpenClawConfig =
  smartRouting :: "SmartRoutingConfig option"

definition DEFAULT_ROUTING_RULES :: "TaskType \<Rightarrow> jsstring list" where
  "DEFAULT_ROUTING_RULES t =
     (case t of
        code \<Rightarrow> [js ''codex'', js ''deepseek'', js ''qwen'', js ''coder'']
      | reasoning \<Rightarrow> [js ''deepseek'', js ''codex'', js ''claude'', js ''r1'']
      | creative \<Rightarrow> [js ''claude'', js ''gemini'', js ''llama'', js ''opus'']
      | translation \<Rightarrow> [js ''gemini'', js ''qwen'', js ''deepseek'', js ''glm'']
      | general \<Rightarrow> [])"

definition candidateKey :: "(jsstring \<Rightarrow> jsstring) \<Rightarrow> ModelCandidate \<Rightarrow> jsstring" where
  "candidateKey toLowerCase c = toLowerCase (provider c @ js ''/'' @ model c)"

text \<open>\<^verbatim>\<open>key.includes(fragment)\<close> (\<open>includes\<close> is a reserved word here).\<close>

fun includesStr :: "jsstring \<Rightarrow> jsstring \<Rightarrow> bool" where
  "includesStr [] fragment = (fragment = [])"
| "includesStr (x # xs) fragment = (prefix fragment (x # xs) \<or> includesStr xs fragment)"

text \<open>The \<^verbatim>\<open>for\<close> loop of \<^verbatim>\<open>matchAffinity\<close>, from index \<open>i\<close> on.\<close>

fun matchFrom :: "(jsstring \<Rightarrow> jsstring) \<Rightarrow> jsstring \<Rightarrow> jsstring list \<Rightarrow> nat \<Rightarrow> int" where
  "matchFrom toLowerCase key [] i = -1"
| "matchFrom toLowerCase key (fragment # rest) i =
     (if includesStr key (toLowerCase fragment) then int i else matchFrom toLowerCase key rest (Suc i))"

definition matchAffinity :: "(jsstring \<Rightarrow> jsstring) \<Rightarrow> ModelCandidate \<Rightarrow> jsstring list \<Rightarrow> int" where
  "matchAffinity toLowerCase candidate fragments = (let key = candidateKey toLowerCase candidate in matchFrom toLowerCase key fragments 0)"

definition resolveSmartRoutingConfig :: "OpenClawConfig option \<Rightarrow> SmartRoutingConfig" where
  "resolveSmartRoutingConfig cfg =
     (case cfg of
        None \<Rightarrow> \<lparr> routing_enabled = Some True, rules = None \<rparr>
      | Some c \<Rightarrow>
          (case smartRouting c of
             None \<Rightarrow> \<lparr> routing_enabled = Some True, rules = None \<rparr>
           | Some raw \<Rightarrow> raw))"

text \<open>
  The numbers that the sort comparator handles: an affinity index is an integer or
  \<^verbatim>\<open>Infinity\<close>, and a difference of two of them may be infinite.
\<close>

datatype jsnumber = Finite int | PosInfinity | NegInfinity | NaN

fun js_minus :: "jsnumber \<Rightarrow> jsnumber \<Rightarrow> jsnumber" where
  "js_minus (Finite a) (Finite b) = Finite (a - b)"
| "js_minus (Finite a) PosInfinity = NegInfinity"
| "js_minus (Finite a) NegInfinity = PosInfinity"
| "js_minus PosInfinity (Finite b) = PosInfinity"
| "js_minus PosInfinity NegInfinity = PosInfinity"
| "js_minus NegInfinity (Finite b) = NegInfinity"
| "js_minus NegInfinity PosInfinity = NegInfinity"
| "js_minus a b = NaN"

fun positive :: "jsnumber \<Rightarrow> bool" where
  "positive (Finite a) = (a > 0)"
| "positive PosInfinity = True"
| "positive NegInfinity = False"
| "positive NaN = False"

record Scored =
  candidate :: ModelCandidate
  affinityIndex :: jsnumber
  originalIndex :: nat

text \<open>\<^verbatim>\<open>candidates.map((candidate, originalIndex) => ...)\<close>, from index \<open>i\<close> on.\<close>

fun scoreFrom :: "(jsstring \<Rightarrow> jsstring) \<Rightarrow> ModelCandidate list \<Rightarrow> jsstring list \<Rightarrow> nat \<Rightarrow> Scored list" where
  "scoreFrom toLowerCase [] fragments i = []"
| "scoreFrom toLowerCase (c # cs) fragments i =
     \<lparr> candidate = c,
       affinityIndex = (let a = matchAffinity toLowerCase c fragments in if a \<ge> 0 then Finite a else PosInfinity),
       originalIndex = i \<rparr>
     # scoreFrom toLowerCase cs fragments (Suc i)"

definition compareScored :: "Scored \<Rightarrow> Scored \<Rightarrow> jsnumber" where
  "compareScored a b =
     (if affinityIndex a \<noteq> affinityIndex b then js_minus (affinityIndex a) (affinityIndex b)
      else Finite (int (originalIndex a) - int (originalIndex b)))"

text \<open>
  \<^verbatim>\<open>Array.prototype.sort\<close> with a comparator. The sort is stable, and with a
  comparator that orders the elements consistently every stable sort returns the same
  array; the model is the insertion sort that puts an element behind those that the
  comparator places before it (a positive result) and in front of the others.
\<close>

fun insertBy :: "('a \<Rightarrow> 'a \<Rightarrow> jsnumber) \<Rightarrow> 'a \<Rightarrow> 'a list \<Rightarrow> 'a list" where
  "insertBy cmp x [] = [x]"
| "insertBy cmp x (y # ys) = (if positive (cmp x y) then y # insertBy cmp x ys else x # y # ys)"

fun sortBy :: "('a \<Rightarrow> 'a \<Rightarrow> jsnumber) \<Rightarrow> 'a list \<Rightarrow> 'a list" where
  "sortBy cmp [] = []"
| "sortBy cmp (x # xs) = insertBy cmp x (sortBy cmp xs)"

definition applySmartRouting ::
  "(jsstring \<Rightarrow> jsstring) \<Rightarrow> ModelCandidate list \<Rightarrow> jsstring option \<Rightarrow> OpenClawConfig option \<Rightarrow> ModelCandidate list" where
  "applySmartRouting toLowerCase candidates prompt cfg =
     (if prompt = None \<or> prompt = Some [] \<or> length candidates \<le> 1 then candidates
      else
        let routingCfg = resolveSmartRoutingConfig cfg in
        if routing_enabled routingCfg = Some False then candidates
        else
          let taskType = classifyTaskType prompt in
          if taskType = general then candidates
          else
            let fragments =
                  (case rules routingCfg of
                     None \<Rightarrow> DEFAULT_ROUTING_RULES taskType
                   | Some r \<Rightarrow> (case r taskType of None \<Rightarrow> DEFAULT_ROUTING_RULES taskType | Some f \<Rightarrow> f))
            in
              if length fragments = 0 then candidates
              else map candidate (sortBy compareScored (scoreFrom toLowerCase candidates fragments 0)))"

text \<open>
  The fragment list that the routing resolves for a task type: the configured one, or
  the default one when the configuration has no rules or none for this type.
\<close>

definition resolvedFragments :: "OpenClawConfig option \<Rightarrow> TaskType \<Rightarrow> jsstring list" where
  "resolvedFragments cfg t =
     (case rules (resolveSmartRoutingConfig cfg) of
        None \<Rightarrow> DEFAULT_ROUTING_RULES t
      | Some r \<Rightarrow> (case r t of None \<Rightarrow> DEFAULT_ROUTING_RULES t | Some f \<Rightarrow> f))"

definition routingDisabled :: "OpenClawConfig option \<Rightarrow> bool" where
  "routingDisabled cfg \<longleftrightarrow> routing_enabled (resolveSmartRoutingConfig cfg) = Some False"

text \<open>
  The place of a candidate among the groups of the result: the index of its matching
  fragment, or the number of fragments when none matches.
\<close>

definition rankOf :: "(jsstring \<Rightarrow> jsstring) \<Rightarrow> jsstring list \<Rightarrow> ModelCandidate \<Rightarrow> nat" where
  "rankOf toLowerCase fragments c = (if matchAffinity toLowerCase c fragments \<ge> 0 then nat (matchAffinity toLowerCase c fragments) else length fragments)"

text \<open>The affinity index that \<^verbatim>\<open>applySmartRouting\<close> gives a candidate.\<close>

definition affinityOf :: "(jsstring \<Rightarrow> jsstring) \<Rightarrow> jsstring list \<Rightarrow> ModelCandidate \<Rightarrow> jsnumber" where
  "affinityOf toLowerCase fs c = (if matchAffinity toLowerCase c fs \<ge> 0 then Finite (matchAffinity toLowerCase c fs) else PosInfinity)"

text \<open>
  The elements of rank \<open>0\<close>, then those of rank \<open>1\<close>, and so on below \<open>m\<close>, each
  group in the order of the list.
\<close>

definition groupsUpTo :: "('a \<Rightarrow> nat) \<Rightarrow> nat \<Rightarrow> 'a list \<Rightarrow> 'a list" where
  "groupsUpTo f m xs = concat (map (\<lambda>k. filter (\<lambda>x. f x = k) xs) [0..<m])"


section \<open>Properties of the quality guard\<close>

subsection \<open>Every call returns\<close>

lemma scanFrom_ge: "scanFrom seg xs k = Some p \<Longrightarrow> k \<le> p"
  by (induction xs arbitrary: k) (auto split: if_splits dest: Suc_leD)

lemma indexOf_ge: "indexOf t seg pos = Some p \<Longrightarrow> min pos (length t) \<le> p"
  unfolding indexOf_def Let_def by (rule scanFrom_ge)

lemma indexOf_beyond: "seg \<noteq> [] \<Longrightarrow> length t \<le> pos \<Longrightarrow> indexOf t seg pos = None"
  by (simp add: indexOf_def Let_def)

lemma countSegments_returns:
  assumes "seg \<noteq> []" and "0 < w"
  shows "\<exists>n. countSegments t seg w pos occ = Some n"
proof (induction "length t - pos" arbitrary: pos occ rule: less_induct)
  case less
  show ?case
  proof (cases "indexOf t seg pos")
    case None
    then show ?thesis by (subst countSegments.simps) simp
  next
    case (Some p)
    then have lt: "pos < length t"
      using indexOf_beyond [OF assms(1), of t pos] by (cases "pos < length t") auto
    from Some have "pos \<le> p" using indexOf_ge [of t seg pos p] lt by simp
    then have "length t - (p + w) < length t - pos" using lt assms(2) by linarith
    from less [OF this] obtain n where "countSegments t seg w (p + w) (Suc occ) = Some n" by blast
    then show ?thesis using Some by (subst countSegments.simps) simp
  qed
qed

lemma detectRepetitionRatio_returns: "\<exists>r. detectRepetitionRatio t = Some r"
proof (cases "length t < 100")
  case True
  then show ?thesis by (simp add: detectRepetitionRatio_def)
next
  case False
  define w where "w = min 100 (length t div 4)"
  have w: "0 < w" using False by (simp add: w_def)
  have seg: "take w t \<noteq> []" using False w by auto
  from countSegments_returns [OF seg w, of t 0 0] obtain n
    where "countSegments t (take w t) w 0 0 = Some n" by blast
  then show ?thesis using False by (simp add: detectRepetitionRatio_def Let_def w_def [symmetric])
qed

lemma checkForLooping_returns: "\<exists>r. checkForLooping toLowerCase s chunk cfg ctx = Some r"
  using detectRepetitionRatio_returns [of "concat (chunks s)"]
  by (auto simp: checkForLooping_def Let_def)

lemma checkStreamingChunk_unfold:
  "checkStreamingChunk toLowerCase s chunk config ctx now =
     (if \<not> r_enabled (mergeConfig config) then Some (Inr (), s)
      else if int (length chunk) \<ge> r_loopMinChunkLength (mergeConfig config)
      then map_option (\<lambda>r. (r, recorded s chunk now))
             (checkForLooping toLowerCase (recorded s chunk now) chunk (mergeConfig config) ctx)
      else Some (Inr (), recorded s chunk now))"
proof (cases s)
  case (fields chs tot fca sa)
  show ?thesis
  proof (cases "checkForLooping toLowerCase (recorded s chunk now) chunk (mergeConfig config) ctx")
    case None
    then show ?thesis
      using fields by (auto simp: checkStreamingChunk_def Let_def recorded_def)
  next
    case (Some r)
    then show ?thesis
      using fields by (auto simp: checkStreamingChunk_def Let_def recorded_def)
  qed
qed

lemma checkStreamingChunk_returns:
  "\<exists>r. checkStreamingChunk toLowerCase s chunk config ctx now
         = Some (r, if r_enabled (mergeConfig config) then recorded s chunk now else s)"
  using checkForLooping_returns [of toLowerCase "recorded s chunk now" chunk "mergeConfig config" ctx]
  by (auto simp: checkStreamingChunk_unfold)

lemma checkForStall_state [simp]: "snd (checkForStall s config ctx now) = s"
  by (simp add: checkForStall_def Let_def)

lemma checkFinalResponse_state [simp]: "snd (checkFinalResponse s config ctx) = s"
  by (simp add: checkFinalResponse_def Let_def)

lemma ingested_Cons: "ingested (x # xs) = ingested [x] @ ingested xs"
  by (cases x) auto

lemma applyOp_effect:
  "\<exists>r. applyOp toLowerCase s x = Some (r, s\<lparr> chunks := chunks s @ ingested [x],
          totalChars := totalChars s + sum_list (map length (ingested [x])),
          firstChunkAt := (if nonEmptyIngest x \<and> (firstChunkAt s = None \<or> firstChunkAt s = Some 0)
                           then (case x of Ingest c g u now \<Rightarrow> Some now | _ \<Rightarrow> None)
                           else firstChunkAt s) \<rparr>)"
proof (cases x)
  case (Ingest chunk config ctx now)
  obtain r where "checkStreamingChunk toLowerCase s chunk config ctx now
         = Some (r, if r_enabled (mergeConfig config) then recorded s chunk now else s)"
    using checkStreamingChunk_returns by blast
  then show ?thesis using Ingest by (cases s) (auto simp: recorded_def)
next
  case (StallCheck config ctx now)
  then show ?thesis
    using checkForStall_state [of s config ctx now]
    by (cases "checkForStall s config ctx now") auto
next
  case (Finalize config ctx)
  then show ?thesis
    using checkFinalResponse_state [of s config ctx]
    by (cases "checkFinalResponse s config ctx") auto
qed

lemma runOps_effect:
  "\<exists>st. runOps toLowerCase s xs = Some st \<and> chunks st = chunks s @ ingested xs
        \<and> totalChars st = totalChars s + sum_list (map length (ingested xs))
        \<and> startedAt st = startedAt s
        \<and> (firstChunkAt st = None \<longleftrightarrow> firstChunkAt s = None \<and> \<not> (\<exists>x \<in> set xs. nonEmptyIngest x))"
proof (induction xs arbitrary: s)
  case Nil
  then show ?case by simp
next
  case (Cons x xs)
  obtain r s' where step: "applyOp toLowerCase s x = Some (r, s')"
    and s': "chunks s' = chunks s @ ingested [x]"
            "totalChars s' = totalChars s + sum_list (map length (ingested [x]))"
            "startedAt s' = startedAt s"
            "firstChunkAt s' = None \<longleftrightarrow> firstChunkAt s = None \<and> \<not> nonEmptyIngest x"
    using applyOp_effect [of toLowerCase s x] by (cases x) (auto split: if_splits)
  from Cons [of s'] obtain st where
    "runOps toLowerCase s' xs = Some st \<and> chunks st = chunks s' @ ingested xs
        \<and> totalChars st = totalChars s' + sum_list (map length (ingested xs))
        \<and> startedAt st = startedAt s'
        \<and> (firstChunkAt st = None \<longleftrightarrow> firstChunkAt s' = None \<and> \<not> (\<exists>x \<in> set xs. nonEmptyIngest x))"
    by (elim exE)
  then have st: "runOps toLowerCase s' xs = Some st"
    "chunks st = chunks s' @ ingested xs"
    "totalChars st = totalChars s' + sum_list (map length (ingested xs))"
    "startedAt st = startedAt s'"
    "firstChunkAt st = None \<longleftrightarrow> firstChunkAt s' = None \<and> \<not> (\<exists>x \<in> set xs. nonEmptyIngest x)"
    by simp_all
  show ?case
  proof (intro exI conjI)
    show "runOps toLowerCase s (x # xs) = Some st" using step st(1) by simp
    show "chunks st = chunks s @ ingested (x # xs)"
      using st(2) s'(1) ingested_Cons [of x xs] by simp
    show "totalChars st = totalChars s + sum_list (map length (ingested (x # xs)))"
      using st(3) s'(2) ingested_Cons [of x xs] by simp
    show "startedAt st = startedAt s" using st(4) s'(3) by simp
    show "firstChunkAt st = None \<longleftrightarrow>
        firstChunkAt s = None \<and> \<not> (\<exists>y \<in> set (x # xs). nonEmptyIngest y)"
      using st(5) s'(4) by simp
  qed
qed

subsection \<open>Loop detection\<close>

lemma countRepeats_min:
  "k \<le> t \<Longrightarrow> countRepeats toLowerCase cs n t k = min t (k + int (length (takeWhile (\<lambda>c. toLowerCase (trim c) = n) cs)))"
  by (induction cs arbitrary: k) auto

lemma countRepeats_nonpos: "t \<le> 0 \<Longrightarrow> countRepeats toLowerCase cs n t 0 = 0"
  by (cases cs) auto

lemma length_takeWhile_take:
  "length (takeWhile P (take m xs)) = min m (length (takeWhile P xs))"
  by (induction xs arbitrary: m) (auto simp: take_Cons split: nat.splits)

lemma failover_detection [simp]: "detection (failover d r c) = d"
  and failover_reason [simp]: "reason (failover d r c) = r"
  by (simp_all add: failover_def)

lemma failover_neq [simp]: "d \<noteq> d' \<Longrightarrow> failover d r c \<noteq> failover d' r' c'"
  by (auto simp: failover_def)

lemma looping_fires_iff:
  assumes ch: "chunks s = old @ [chunk]"
  shows "checkForLooping toLowerCase s chunk cfg ctx = Some (Inl (failover LoopingDetected unknown ctx))
         \<longleftrightarrow> int (precedingRun toLowerCase old chunk) + 1 \<ge> r_loopThreshold cfg"
proof (cases "r_loopThreshold cfg \<le> 0")
  case True
  then have "\<not> int (length (slice_from (chunks s) (- r_loopThreshold cfg * 2))) < r_loopThreshold cfg"
    by simp
  moreover have "countRepeats toLowerCase cs n (r_loopThreshold cfg) 0 \<ge> r_loopThreshold cfg - 1" for cs n
    using True by (simp add: countRepeats_nonpos)
  ultimately show ?thesis
    using True by (simp add: checkForLooping_def Let_def)
next
  case False
  define t where "t = r_loopThreshold cfg"
  define d where "d = nat (max (int (length old) + 1 - 2 * t) 0)"
  have t: "1 \<le> t" using False by (simp add: t_def)
  have d: "d \<le> length old" using t by (simp add: d_def)
  have recent: "slice_from (chunks s) (- r_loopThreshold cfg * 2) = drop d old @ [chunk]"
    using t d by (simp add: slice_from_def ch d_def t_def [symmetric] algebra_simps)
  have len: "int (length (drop d old @ [chunk])) = min (int (length old) + 1) (2 * t)"
    using t by (simp add: d_def)
  have "rev (butlast (drop d old @ [chunk])) = take (length old - d) (rev old)"
    by (simp add: rev_drop)
  then have cnt: "countRepeats toLowerCase (rev (butlast (drop d old @ [chunk]))) (toLowerCase (trim chunk)) t 0
      = min t (min (int (length old - d)) (int (precedingRun toLowerCase old chunk)))"
    using t by (simp add: countRepeats_min length_takeWhile_take precedingRun_def)
  have ld: "int (length old - d) = min (int (length old)) (2 * t - 1)"
    using t by (simp add: d_def)
  have n: "precedingRun toLowerCase old chunk \<le> length old"
    unfolding precedingRun_def using length_takeWhile_le [of _ "rev old"] by simp
  show ?thesis
  proof (cases "int (length (drop d old @ [chunk])) < t")
    case True
    then have "int (length old) + 1 < t" using len t by linarith
    then have "\<not> int (precedingRun toLowerCase old chunk) + 1 \<ge> t" using n by linarith
    then show ?thesis
      using True unfolding checkForLooping_def Let_def recent t_def by simp
  next
    case nshort: False
    have iff: "min t (min (int (length old - d)) (int (precedingRun toLowerCase old chunk))) \<ge> t - 1
        \<longleftrightarrow> int (precedingRun toLowerCase old chunk) + 1 \<ge> t"
      using t n ld nshort len by linarith
    show ?thesis
      using nshort iff unfolding checkForLooping_def Let_def recent cnt [unfolded t_def] t_def
      by (auto split: option.splits)
  qed
qed

lemma ingest_looping_iff:
  assumes "r_enabled (mergeConfig config)"
    and "int (length chunk) \<ge> r_loopMinChunkLength (mergeConfig config)"
  shows "map_option fst (checkStreamingChunk toLowerCase s chunk config ctx now)
           = Some (Inl (failover LoopingDetected unknown ctx))
         \<longleftrightarrow> int (precedingRun toLowerCase (chunks s) chunk) + 1 \<ge> r_loopThreshold (mergeConfig config)"
proof -
  have "chunks (recorded s chunk now) = chunks s @ [chunk]" by (simp add: recorded_def)
  from looping_fires_iff [OF this, of toLowerCase "mergeConfig config" ctx] show ?thesis
    using assms by (auto simp: checkStreamingChunk_unfold option.map_comp comp_def)
qed

lemma mergeConfig_None [simp]: "mergeConfig None = DEFAULT_CONFIG"
  by (simp add: mergeConfig_def)

lemma DEFAULT_CONFIG_simps [simp]:
  "r_enabled DEFAULT_CONFIG" "r_minResponseChars DEFAULT_CONFIG = 10"
  "r_stallTimeoutSeconds DEFAULT_CONFIG = 30" "r_loopThreshold DEFAULT_CONFIG = 3"
  "r_loopMinChunkLength DEFAULT_CONFIG = 20"
  by (simp_all add: DEFAULT_CONFIG_def)

lemma ingest_outcome_cases:
  assumes "map_option fst (checkStreamingChunk toLowerCase s chunk config ctx now) = Some r"
  shows "checkStreamingChunk toLowerCase s chunk config ctx now
           = Some (r, if r_enabled (mergeConfig config) then recorded s chunk now else s)"
  using assms checkStreamingChunk_returns [of toLowerCase s chunk config ctx now] by auto

lemma ingest_short_history:
  assumes "r_enabled (mergeConfig config)"
    and "int (length (chunks s)) + 1 < r_loopThreshold (mergeConfig config)"
  shows "checkStreamingChunk toLowerCase s chunk config ctx now = Some (Inr (), recorded s chunk now)"
proof -
  define t where "t = r_loopThreshold (mergeConfig config)"
  have "int (length (slice_from (chunks s @ [chunk]) (- t * 2))) < t"
    using assms(2) by (simp add: slice_from_def t_def)
  then have "checkForLooping toLowerCase (recorded s chunk now) chunk (mergeConfig config) ctx = Some (Inr ())"
    by (simp add: checkForLooping_def recorded_def Let_def t_def)
  then show ?thesis using assms(1) by (simp add: checkStreamingChunk_unfold)
qed

lemma five_identical_chunks:
  assumes "length c = 60"
  shows "feedChunks toLowerCase (createQualityGuardState t0) [(c, t1), (c, t2), (c, t3), (c, t4), (c, t5)] None ctx
           = Some (Inl (failover LoopingDetected unknown ctx))"
proof -
  define s0 where "s0 = createQualityGuardState t0"
  define s1 where "s1 = recorded s0 c t1"
  define s2 where "s2 = recorded s1 c t2"
  have c0: "chunks s0 = []" by (simp add: s0_def createQualityGuardState_def)
  have c1: "chunks s1 = [c]" by (simp add: s1_def recorded_def c0)
  have c2: "chunks s2 = [c, c]" by (simp add: s2_def recorded_def c1)
  have i1: "checkStreamingChunk toLowerCase s0 c None ctx t1 = Some (Inr (), s1)"
    unfolding s1_def by (rule ingest_short_history) (simp_all add: c0)
  have i2: "checkStreamingChunk toLowerCase s1 c None ctx t2 = Some (Inr (), s2)"
    unfolding s2_def by (rule ingest_short_history) (simp_all add: c1)
  have "int (precedingRun toLowerCase (chunks s2) c) + 1 \<ge> r_loopThreshold (mergeConfig None)"
    by (simp add: c2 precedingRun_def)
  then have "map_option fst (checkStreamingChunk toLowerCase s2 c None ctx t3)
           = Some (Inl (failover LoopingDetected unknown ctx))"
    using ingest_looping_iff [of None c toLowerCase s2 ctx t3] assms by simp
  then have i3: "checkStreamingChunk toLowerCase s2 c None ctx t3
           = Some (Inl (failover LoopingDetected unknown ctx), recorded s2 c t3)"
    using ingest_outcome_cases [of toLowerCase s2 c None ctx t3] by simp
  show ?thesis by (simp add: s0_def [symmetric] i1 i2 i3)
qed

text \<open>
  C7. An enabled ingest of a chunk that is at least \<open>loopMinChunkLength\<close> long throws the
  looping error, with reason \<open>unknown\<close>, exactly when the run of consecutive equal chunks
  (trimmed and lower-cased) that ends with the new chunk reaches \<open>loopThreshold\<close>. Five
  identical chunks of 60 characters fed to a fresh state under the default configuration
  make the feeding throw the looping error. The lower-casing is the argument
  \<open>toLowerCase\<close>: the statement holds whatever function of the string the built-in is.
\<close>

theorem consecutive_repeats_raise_looping:
  "(r_enabled (mergeConfig config) \<and> int (length chunk) \<ge> r_loopMinChunkLength (mergeConfig config)
      \<longrightarrow> (map_option fst (checkStreamingChunk toLowerCase s chunk config ctx now)
             = Some (Inl (failover LoopingDetected unknown ctx))
           \<longleftrightarrow> int (precedingRun toLowerCase (chunks s) chunk) + 1 \<ge> r_loopThreshold (mergeConfig config)))
   \<and> reason (failover LoopingDetected unknown ctx) = unknown
   \<and> (length c = 60
      \<longrightarrow> feedChunks toLowerCase (createQualityGuardState t0) [(c, t1), (c, t2), (c, t3), (c, t4), (c, t5)] None ctx
           = Some (Inl (failover LoopingDetected unknown ctx)))"
  using ingest_looping_iff [of config chunk toLowerCase s ctx now]
    five_identical_chunks [of c toLowerCase t0 t1 t2 t3 t4 t5 ctx]
  by simp

subsection \<open>Repetition ratio of a text of one repeated character\<close>

lemma prefix_replicate: "prefix (replicate w a) (replicate m a) \<longleftrightarrow> w \<le> m"
proof
  assume "prefix (replicate w a) (replicate m a)"
  then show "w \<le> m" using prefix_length_le by fastforce
next
  assume "w \<le> m"
  then have "replicate m a = replicate w a @ replicate (m - w) a"
    by (simp add: replicate_add [symmetric])
  then show "prefix (replicate w a) (replicate m a)" by (metis prefixI)
qed

lemma scanFrom_replicate:
  "0 < w \<Longrightarrow> scanFrom (replicate w a) (replicate m a) k = (if w \<le> m then Some k else None)"
proof (induction m arbitrary: k)
  case 0
  then show ?case by simp
next
  case (Suc m)
  have "prefix (replicate w a) (a # replicate m a) \<longleftrightarrow> w \<le> Suc m"
    using prefix_replicate [of w a "Suc m"] by simp
  then show ?case using Suc by simp
qed

lemma indexOf_replicate:
  "0 < w \<Longrightarrow> indexOf (replicate n a) (replicate w a) pos = (if pos + w \<le> n then Some pos else None)"
  by (auto simp: indexOf_def Let_def scanFrom_replicate min_def)

lemma countSegments_replicate:
  assumes "0 < w"
  shows "pos \<le> n \<Longrightarrow> countSegments (replicate n a) (replicate w a) w pos occ = Some (occ + (n - pos) div w)"
proof (induction "n - pos" arbitrary: pos occ rule: less_induct)
  case less
  show ?case
  proof (cases "pos + w \<le> n")
    case True
    then have "n - (pos + w) < n - pos" using assms by linarith
    from less(1) [OF this] True
    have "countSegments (replicate n a) (replicate w a) w (pos + w) (Suc occ)
            = Some (Suc occ + (n - (pos + w)) div w)" by simp
    moreover have "(n - pos) div w = Suc ((n - (pos + w)) div w)"
      using True assms by (simp add: le_div_geq)
    ultimately show ?thesis
      using True assms by (subst countSegments.simps) (simp add: indexOf_replicate)
  next
    case False
    then have "(n - pos) div w = 0" using less(2) by simp
    then show ?thesis
      using False assms by (subst countSegments.simps) (simp add: indexOf_replicate)
  qed
qed

lemma detectRepetitionRatio_replicate:
  assumes "400 \<le> n"
  shows "detectRepetitionRatio (replicate n a) = Some (real (n div 100 * 100) / real n)"
proof -
  have w: "min 100 (n div 4) = 100" using assms by simp
  have occ: "\<not> n div 100 \<le> 1" using assms by simp
  have "countSegments (replicate n a) (replicate 100 a) 100 0 0 = Some (n div 100)"
    using countSegments_replicate [of 100 0 n a 0] by simp
  then show ?thesis
    using assms occ by (simp add: detectRepetitionRatio_def w Let_def)
qed

subsection \<open>The repetition-ratio check\<close>

lemma window_long_enough:
  assumes "int (length old) + 1 \<ge> t"
  shows "\<not> int (length (slice_from (old @ [chunk]) (- t * 2))) < t"
  using assms by (auto simp: slice_from_def)

lemma ratio_check_outcome:
  assumes en: "r_enabled (mergeConfig config)"
    and long: "int (length chunk) \<ge> r_loopMinChunkLength (mergeConfig config)"
    and hist: "int (length (chunks s)) + 1 \<ge> r_loopThreshold (mergeConfig config)"
    and total: "totalChars s + length chunk > 500"
    and ratio: "detectRepetitionRatio (concat (chunks s @ [chunk])) = Some ratio"
  shows "map_option fst (checkStreamingChunk toLowerCase s chunk config ctx now) =
           Some (if int (precedingRun toLowerCase (chunks s) chunk) + 1 \<ge> r_loopThreshold (mergeConfig config)
                 then Inl (failover LoopingDetected unknown ctx)
                 else if ratio > 0.6 then Inl (failover HeavilyRepetitive unknown ctx)
                 else Inr ())"
proof (cases "int (precedingRun toLowerCase (chunks s) chunk) + 1 \<ge> r_loopThreshold (mergeConfig config)")
  case True
  then show ?thesis using ingest_looping_iff [OF en long, of toLowerCase s ctx now] by simp
next
  case False
  define s' where "s' = recorded s chunk now"
  define cfg where "cfg = mergeConfig config"
  have ch: "chunks s' = chunks s @ [chunk]" and tot: "totalChars s' = totalChars s + length chunk"
    by (simp_all add: s'_def recorded_def)
  have nl: "checkForLooping toLowerCase s' chunk cfg ctx \<noteq> Some (Inl (failover LoopingDetected unknown ctx))"
    using looping_fires_iff [OF ch, of toLowerCase cfg ctx] False by (simp add: cfg_def)
  have win: "\<not> int (length (slice_from (chunks s') (- r_loopThreshold cfg * 2))) < r_loopThreshold cfg"
    unfolding ch using window_long_enough [of "r_loopThreshold cfg" "chunks s" chunk] hist
    by (simp add: cfg_def)
  have "checkForLooping toLowerCase s' chunk cfg ctx =
          Some (if ratio > 0.6 then Inl (failover HeavilyRepetitive unknown ctx) else Inr ())"
    using nl win total ratio unfolding checkForLooping_def Let_def tot
    by (auto simp: ch split: if_splits)
  then show ?thesis
    using en long False by (simp add: checkStreamingChunk_unfold s'_def cfg_def)
qed

lemma fresh_state_simps [simp]:
  "chunks (createQualityGuardState t0) = []" "totalChars (createQualityGuardState t0) = 0"
  "firstChunkAt (createQualityGuardState t0) = None" "startedAt (createQualityGuardState t0) = t0"
  by (simp_all add: createQualityGuardState_def)

subsection \<open>The loop of the source counts the non-overlapping occurrences\<close>

lemma occurrences_skip:
  "nonOverlappingOccurrences seg w xs c = nonOverlappingOccurrences seg w (drop c xs) 0"
proof (induction xs arbitrary: c)
  case Nil
  then show ?case by simp
next
  case (Cons x xs)
  show ?case
  proof (cases c)
    case 0
    then show ?thesis by simp
  next
    case (Suc c')
    then show ?thesis using Cons [of c'] by simp
  qed
qed

lemma scanFrom_None_occurrences:
  "seg \<noteq> [] \<Longrightarrow> scanFrom seg xs k = None \<Longrightarrow> nonOverlappingOccurrences seg w xs 0 = 0"
proof (induction xs arbitrary: k)
  case Nil
  then show ?case by simp
next
  case (Cons x xs)
  from Cons.prems have np: "\<not> prefix seg (x # xs)" and rest: "scanFrom seg xs (Suc k) = None"
    by (auto split: if_splits)
  show ?case using Cons.IH [OF Cons.prems(1) rest] np by simp
qed

lemma scanFrom_Some_occurrences:
  assumes "seg \<noteq> []" and "0 < w"
  shows "scanFrom seg xs k = Some p \<Longrightarrow>
           k \<le> p \<and> nonOverlappingOccurrences seg w xs 0
                      = Suc (nonOverlappingOccurrences seg w (drop (p - k + w) xs) 0)"
proof (induction xs arbitrary: k)
  case Nil
  then show ?case using assms(1) by simp
next
  case (Cons x xs)
  show ?case
  proof (cases "prefix seg (x # xs)")
    case True
    then have "p = k" using Cons.prems by simp
    moreover have "nonOverlappingOccurrences seg w xs (w - 1)
                     = nonOverlappingOccurrences seg w (drop (w - 1) xs) 0"
      by (rule occurrences_skip)
    moreover have "drop w (x # xs) = drop (w - 1) xs" using assms(2) by (cases w) simp_all
    ultimately show ?thesis using True by simp
  next
    case False
    then have rest: "scanFrom seg xs (Suc k) = Some p" using Cons.prems by simp
    from Cons.IH [OF rest] have ih: "Suc k \<le> p"
      "nonOverlappingOccurrences seg w xs 0
         = Suc (nonOverlappingOccurrences seg w (drop (p - Suc k + w) xs) 0)"
      by simp_all
    have "p - k + w = Suc (p - Suc k + w)" using ih(1) by simp
    then have "drop (p - k + w) (x # xs) = drop (p - Suc k + w) xs" by simp
    then show ?thesis using False ih by simp
  qed
qed

lemma countSegments_occurrences:
  assumes "seg \<noteq> []" and "0 < w"
  shows "countSegments t seg w pos occ = Some (occ + nonOverlappingOccurrences seg w (drop pos t) 0)"
proof (induction "length t - pos" arbitrary: pos occ rule: less_induct)
  case less
  have dr: "drop (min pos (length t)) t = drop pos t" by (cases "pos \<le> length t") simp_all
  show ?case
  proof (cases "indexOf t seg pos")
    case None
    then have "scanFrom seg (drop pos t) (min pos (length t)) = None"
      by (simp add: indexOf_def Let_def dr)
    then have "nonOverlappingOccurrences seg w (drop pos t) 0 = 0"
      using scanFrom_None_occurrences [OF assms(1)] by blast
    then show ?thesis using None by (subst countSegments.simps) simp
  next
    case (Some p)
    then have lt: "pos < length t"
      using indexOf_beyond [OF assms(1), of t pos] by (cases "pos < length t") auto
    from Some have sc: "scanFrom seg (drop pos t) pos = Some p"
      using lt by (simp add: indexOf_def Let_def min_def)
    from scanFrom_Some_occurrences [OF assms sc] have le: "pos \<le> p"
      and n: "nonOverlappingOccurrences seg w (drop pos t) 0
                = Suc (nonOverlappingOccurrences seg w (drop (p - pos + w) (drop pos t)) 0)"
      by simp_all
    have "p - pos + w + pos = p + w" using le by simp
    then have n': "nonOverlappingOccurrences seg w (drop pos t) 0
                = Suc (nonOverlappingOccurrences seg w (drop (p + w) t) 0)"
      using n by simp
    have "length t - (p + w) < length t - pos" using lt le assms(2) by linarith
    from less [OF this]
    have "countSegments t seg w (p + w) (Suc occ)
            = Some (Suc occ + nonOverlappingOccurrences seg w (drop (p + w) t) 0)" .
    then show ?thesis using Some n' by (subst countSegments.simps) simp
  qed
qed

lemma detectRepetitionRatio_covered: "detectRepetitionRatio t = Some (coveredFraction t)"
proof (cases "length t < 100")
  case True
  then show ?thesis by (simp add: detectRepetitionRatio_def coveredFraction_def)
next
  case False
  define w where "w = min 100 (length t div 4)"
  have w: "0 < w" using False by (simp add: w_def)
  have seg: "take w t \<noteq> []" using False w by auto
  have "countSegments t (take w t) w 0 0 = Some (nonOverlappingOccurrences (take w t) w t 0)"
    using countSegments_occurrences [OF seg w, of t 0 0] by simp
  then show ?thesis
    using False by (simp add: detectRepetitionRatio_def coveredFraction_def Let_def w_def [symmetric])
qed

subsection \<open>Occurrences in a text made of runs of one character\<close>

lemma occurrences_match:
  assumes "0 < w"
  shows "nonOverlappingOccurrences (replicate w a) w (replicate w a @ ys) 0
           = Suc (nonOverlappingOccurrences (replicate w a) w ys 0)"
proof -
  obtain w' where w': "w = Suc w'" using assms by (cases w) auto
  have "nonOverlappingOccurrences (replicate w a) w (replicate w' a @ ys) w'
          = nonOverlappingOccurrences (replicate w a) w (drop w' (replicate w' a @ ys)) 0"
    by (rule occurrences_skip)
  then show ?thesis by (simp add: w')
qed

lemma occurrences_match_end:
  "0 < w \<Longrightarrow> nonOverlappingOccurrences (replicate w a) w (replicate w a) 0 = Suc 0"
  using occurrences_match [of w a "[]"] by simp

lemma occurrences_other:
  assumes "a \<noteq> b" and "0 < w"
  shows "nonOverlappingOccurrences (replicate w a) w (replicate k b @ ys) 0
           = nonOverlappingOccurrences (replicate w a) w ys 0"
proof (induction k)
  case 0
  then show ?case by simp
next
  case (Suc k)
  obtain w' where "w = Suc w'" using assms(2) by (cases w) auto
  then have "\<not> prefix (replicate w a) (b # replicate k b @ ys)" using assms(1) by simp
  then show ?case using Suc by simp
qed

lemma trim_visible_ends:
  assumes "s \<noteq> []" and "\<not> isWhiteSpace (hd s)" and "\<not> isWhiteSpace (last s)"
  shows "trim s = s"
proof -
  have "dropWhile isWhiteSpace s = s" using assms(1,2) by (cases s) simp_all
  moreover have "dropWhile isWhiteSpace (rev s) = rev s"
    using assms(1,3) by (cases "rev s") (simp_all add: hd_rev [symmetric])
  ultimately show ?thesis by (simp add: trim_def)
qed

lemma abba_text:
  "concat [replicate 100 65 @ replicate 100 66, replicate 100 66 @ replicate 100 65,
           replicate 100 65 @ replicate 100 (65::nat)]
     = replicate 100 65 @ replicate 100 66 @ replicate 100 66 @ replicate 100 65 @ replicate 100 65
       @ replicate 100 65"
  by simp

lemma abba_occurrences:
  "nonOverlappingOccurrences (replicate 100 65) 100
     (replicate 100 65 @ replicate 100 66 @ replicate 100 66 @ replicate 100 65 @ replicate 100 65
       @ replicate 100 65) 0 = 4"
  "nonOverlappingOccurrences (replicate 100 65) 100
     (replicate 100 66 @ replicate 100 66 @ replicate 100 65 @ replicate 100 65 @ replicate 100 65) 0 = 3"
proof -
  have o: "nonOverlappingOccurrences (replicate 100 65) 100
     (replicate 100 66 @ replicate 100 66 @ replicate 100 65 @ replicate 100 65 @ replicate 100 65) 0 = 3"
    by (simp add: occurrences_match occurrences_match_end occurrences_other)
  show "nonOverlappingOccurrences (replicate 100 65) 100
     (replicate 100 66 @ replicate 100 66 @ replicate 100 65 @ replicate 100 65 @ replicate 100 65) 0 = 3"
    by (rule o)
  show "nonOverlappingOccurrences (replicate 100 65) 100
     (replicate 100 65 @ replicate 100 66 @ replicate 100 66 @ replicate 100 65 @ replicate 100 65
       @ replicate 100 65) 0 = 4"
    using o by (simp add: occurrences_match)
qed

lemma abba_fraction:
  "coveredFraction (replicate 100 65 @ replicate 100 66 @ replicate 100 66 @ replicate 100 65
       @ replicate 100 65 @ replicate 100 65) = 400 / 600"
  by (simp add: coveredFraction_def Let_def abba_occurrences)

lemma abba_run:
  "precedingRun lowerASCII
     [replicate 100 65 @ replicate 100 66, replicate 100 66 @ replicate 100 65]
     (replicate 100 65 @ replicate 100 65) = 0"
proof -
  have t2: "trim (replicate 100 66 @ replicate 100 65) = replicate 100 66 @ replicate 100 65"
    by (rule trim_visible_ends) (simp_all add: isWhiteSpace_def)
  have t3: "trim (replicate 100 65 @ replicate 100 65) = replicate 100 65 @ replicate 100 65"
    by (rule trim_visible_ends) (simp_all add: isWhiteSpace_def)
  have "hd (lowerASCII (replicate 100 66 @ replicate 100 65))
          \<noteq> hd (lowerASCII (replicate 100 65 @ replicate 100 65))"
    by (simp add: lowerASCII_def)
  then have "lowerASCII (replicate 100 66 @ replicate 100 65)
               \<noteq> lowerASCII (replicate 100 65 @ replicate 100 65)"
    by (rule contrapos_nn) (rule arg_cong)
  then show ?thesis by (simp add: precedingRun_def t2 t3)
qed

text \<open>
  C8, as the claim states it, fails in three ways.

  \<^item> A single chunk of 600 equal characters fed to a fresh state under the default
    configuration: more than 500 characters are accumulated and the repetition ratio is 1,
    yet the ingest returns normally, because fewer than \<open>loopThreshold\<close> chunks have been
    recorded.
  \<^item> After two different long chunks of the same character, a third chunk of 10 characters
    (shorter than \<open>loopMinChunkLength\<close>) is ingested without any check although the ratio
    of the accumulated text is 600/611.
  \<^item> The leading segment counts as an occurrence of itself. The accumulated text
    of 100 times \<open>A\<close>, 200 times \<open>B\<close>, 300 times \<open>A\<close>, ingested as three chunks of 200
    characters, holds four
    non-overlapping occurrences of its leading 100 characters, of which three are recurrences
    elsewhere in the text. The recurrences cover 300/600 of the text, which does not exceed
    0.6, but the ingest raises the heavy-repetition error: the code's ratio is 400/600.
\<close>

theorem repetition_check_not_on_every_ingest_counterexample:
  "checkStreamingChunk lowerASCII (createQualityGuardState 0) (replicate 600 65) None None 1
     = Some (Inr (), \<lparr> chunks = [replicate 600 65], totalChars = 600, firstChunkAt = Some 1, startedAt = 0 \<rparr>)
   \<and> detectRepetitionRatio (concat [replicate 600 65]) = Some 1
   \<and> checkStreamingChunk lowerASCII
        \<lparr> chunks = [replicate 300 65, replicate 301 65], totalChars = 601, firstChunkAt = Some 1, startedAt = 0 \<rparr>
        (replicate 10 65) None None 3
     = Some (Inr (), \<lparr> chunks = [replicate 300 65, replicate 301 65, replicate 10 65], totalChars = 611,
                       firstChunkAt = Some 1, startedAt = 0 \<rparr>)
   \<and> detectRepetitionRatio (concat [replicate 300 65, replicate 301 65, replicate 10 65]) = Some (600 / 611)
   \<and> checkStreamingChunk lowerASCII
        \<lparr> chunks = [replicate 100 65 @ replicate 100 66, replicate 100 66 @ replicate 100 65],
           totalChars = 400, firstChunkAt = Some 1, startedAt = 0 \<rparr>
        (replicate 100 65 @ replicate 100 65) None None 3
     = Some (Inl (failover HeavilyRepetitive unknown None),
             \<lparr> chunks = [replicate 100 65 @ replicate 100 66, replicate 100 66 @ replicate 100 65,
                          replicate 100 65 @ replicate 100 65],
                totalChars = 600, firstChunkAt = Some 1, startedAt = 0 \<rparr>)
   \<and> nonOverlappingOccurrences (replicate 100 65) 100
        (concat [replicate 100 65 @ replicate 100 66, replicate 100 66 @ replicate 100 65,
                 replicate 100 65 @ replicate 100 65]) 0 = 4
   \<and> nonOverlappingOccurrences (replicate 100 65) 100
        (drop 100 (concat [replicate 100 65 @ replicate 100 66, replicate 100 66 @ replicate 100 65,
                           replicate 100 65 @ replicate 100 65])) 0 = 3
   \<and> \<not> real (3 * 100)
          / real (length (concat [replicate 100 65 @ replicate 100 66, replicate 100 66 @ replicate 100 65,
                                  replicate 100 65 @ replicate 100 (65::nat)])) > 0.6
   \<and> detectRepetitionRatio
        (concat [replicate 100 65 @ replicate 100 66, replicate 100 66 @ replicate 100 65,
                 replicate 100 65 @ replicate 100 65]) = Some (400 / 600)"
proof (intro conjI)
  have "checkStreamingChunk lowerASCII (createQualityGuardState 0) (replicate 600 65) None None 1
     = Some (Inr (), recorded (createQualityGuardState 0) (replicate 600 65) 1)"
    by (rule ingest_short_history) simp_all
  then show "checkStreamingChunk lowerASCII (createQualityGuardState 0) (replicate 600 65) None None 1
     = Some (Inr (), \<lparr> chunks = [replicate 600 65], totalChars = 600, firstChunkAt = Some 1, startedAt = 0 \<rparr>)"
    by (simp add: recorded_def)
  show "detectRepetitionRatio (concat [replicate 600 65]) = Some 1"
    using detectRepetitionRatio_replicate [of 600 65] by simp
  show "checkStreamingChunk lowerASCII
        \<lparr> chunks = [replicate 300 65, replicate 301 65], totalChars = 601, firstChunkAt = Some 1, startedAt = 0 \<rparr>
        (replicate 10 65) None None 3
     = Some (Inr (), \<lparr> chunks = [replicate 300 65, replicate 301 65, replicate 10 65], totalChars = 611,
                       firstChunkAt = Some 1, startedAt = 0 \<rparr>)"
    by (simp add: checkStreamingChunk_unfold recorded_def)
  have "replicate 300 65 @ replicate 301 65 @ replicate 10 (65::nat) = replicate 611 65"
    by (simp add: replicate_add [symmetric])
  then show "detectRepetitionRatio (concat [replicate 300 65, replicate 301 65, replicate 10 65]) = Some (600 / 611)"
    using detectRepetitionRatio_replicate [of 611 65] by simp
  define s where "s = \<lparr> chunks = [replicate 100 65 @ replicate 100 66, replicate 100 66 @ replicate 100 (65::nat)],
                        totalChars = 400, firstChunkAt = Some (1::int), startedAt = (0::int) \<rparr>"
  define c where "c = replicate 100 65 @ replicate 100 (65::nat)"
  have ratio: "detectRepetitionRatio (concat (chunks s @ [c])) = Some (400 / 600)"
    unfolding detectRepetitionRatio_covered using abba_fraction by (simp add: s_def c_def)
  have run: "precedingRun lowerASCII (chunks s) c = 0"
    using abba_run by (simp add: s_def c_def)
  have h1: "r_enabled (mergeConfig None)" by simp
  have h2: "int (length c) \<ge> r_loopMinChunkLength (mergeConfig None)" by (simp add: c_def)
  have h3: "int (length (chunks s)) + 1 \<ge> r_loopThreshold (mergeConfig None)" by (simp add: s_def)
  have h4: "totalChars s + length c > 500" by (simp add: s_def c_def)
  have "map_option fst (checkStreamingChunk lowerASCII s c None None 3)
          = Some (Inl (failover HeavilyRepetitive unknown None))"
    using ratio_check_outcome [OF h1 h2 h3 h4 ratio, of lowerASCII None 3] run by simp
  then have "checkStreamingChunk lowerASCII s c None None 3
          = Some (Inl (failover HeavilyRepetitive unknown None), recorded s c 3)"
    using ingest_outcome_cases [of lowerASCII s c None None 3] by simp
  then show "checkStreamingChunk lowerASCII
        \<lparr> chunks = [replicate 100 65 @ replicate 100 66, replicate 100 66 @ replicate 100 65],
           totalChars = 400, firstChunkAt = Some 1, startedAt = 0 \<rparr>
        (replicate 100 65 @ replicate 100 65) None None 3
     = Some (Inl (failover HeavilyRepetitive unknown None),
             \<lparr> chunks = [replicate 100 65 @ replicate 100 66, replicate 100 66 @ replicate 100 65,
                          replicate 100 65 @ replicate 100 65],
                totalChars = 600, firstChunkAt = Some 1, startedAt = 0 \<rparr>)"
    by (simp add: s_def c_def recorded_def)
  show "nonOverlappingOccurrences (replicate 100 65) 100
        (concat [replicate 100 65 @ replicate 100 66, replicate 100 66 @ replicate 100 65,
                 replicate 100 65 @ replicate 100 65]) 0 = 4"
    unfolding abba_text by (rule abba_occurrences)
  show "nonOverlappingOccurrences (replicate 100 65) 100
        (drop 100 (concat [replicate 100 65 @ replicate 100 66, replicate 100 66 @ replicate 100 65,
                           replicate 100 65 @ replicate 100 65])) 0 = 3"
    unfolding abba_text using abba_occurrences(2) by simp
  show "\<not> real (3 * 100)
          / real (length (concat [replicate 100 65 @ replicate 100 66, replicate 100 66 @ replicate 100 65,
                                  replicate 100 65 @ replicate 100 (65::nat)])) > 0.6"
    by simp
  show "detectRepetitionRatio
        (concat [replicate 100 65 @ replicate 100 66, replicate 100 66 @ replicate 100 65,
                 replicate 100 65 @ replicate 100 65]) = Some (400 / 600)"
    unfolding detectRepetitionRatio_covered abba_text using abba_fraction by simp
qed

text \<open>
  C8, amended. An enabled ingest of a chunk at least \<open>loopMinChunkLength\<close> long, made
  when at least \<open>loopThreshold\<close> chunks (the new one included) are recorded and the
  character total exceeds 500, computes the repetition ratio of the whole accumulated
  text: with \<open>w = min 100 (length text div 4)\<close> the size of the leading segment and \<open>n\<close> the
  number of non-overlapping occurrences of the leading \<open>w\<close> characters in the text, counted
  from the left with the leading segment itself included, the ratio is \<open>n * w / length text\<close>,
  the fraction of the text the occurrences cover, and 0 when the text is shorter than 100
  characters or \<open>n \<le> 1\<close>. The ingest throws an error with reason \<open>unknown\<close> whenever the
  ratio exceeds 0.6; when the consecutive-repeat check does not fire, the outcome is the
  heavy-repetition error if the ratio exceeds 0.6 and a normal return otherwise. This holds
  whatever function \<open>toLowerCase\<close> is.
\<close>

theorem repetition_ratio_check:
  assumes "r_enabled (mergeConfig config)"
    and "int (length chunk) \<ge> r_loopMinChunkLength (mergeConfig config)"
    and "int (length (chunks s)) + 1 \<ge> r_loopThreshold (mergeConfig config)"
    and "totalChars s + length chunk > 500"
  shows "let text = concat (chunks s @ [chunk]);
             w = min 100 (length text div 4);
             n = nonOverlappingOccurrences (take w text) w text 0;
             ratio = (if length text < 100 \<or> n \<le> 1 then 0 else real (n * w) / real (length text))
         in detectRepetitionRatio text = Some ratio
          \<and> (ratio > 0.6 \<longrightarrow>
              (\<exists>e. map_option fst (checkStreamingChunk toLowerCase s chunk config ctx now) = Some (Inl e)
                   \<and> reason e = unknown))
          \<and> (int (precedingRun toLowerCase (chunks s) chunk) + 1 < r_loopThreshold (mergeConfig config) \<longrightarrow>
              map_option fst (checkStreamingChunk toLowerCase s chunk config ctx now)
                = Some (if ratio > 0.6 then Inl (failover HeavilyRepetitive unknown ctx) else Inr ()))"
proof -
  define T where "T = concat (chunks s @ [chunk])"
  define w where "w = min 100 (length T div 4)"
  define n where "n = nonOverlappingOccurrences (take w T) w T 0"
  define ratio where "ratio = (if length T < 100 \<or> n \<le> 1 then 0 else real (n * w) / real (length T))"
  have cf: "coveredFraction T = ratio"
    by (simp add: coveredFraction_def ratio_def n_def w_def Let_def)
  have r: "detectRepetitionRatio (concat (chunks s @ [chunk])) = Some ratio"
    using detectRepetitionRatio_covered [of T] cf by (simp add: T_def)
  have out: "map_option fst (checkStreamingChunk toLowerCase s chunk config ctx now) =
           Some (if int (precedingRun toLowerCase (chunks s) chunk) + 1 \<ge> r_loopThreshold (mergeConfig config)
                 then Inl (failover LoopingDetected unknown ctx)
                 else if ratio > 0.6 then Inl (failover HeavilyRepetitive unknown ctx)
                 else Inr ())"
    by (rule ratio_check_outcome [OF assms r])
  have "detectRepetitionRatio T = Some ratio
          \<and> (ratio > 0.6 \<longrightarrow>
              (\<exists>e. map_option fst (checkStreamingChunk toLowerCase s chunk config ctx now) = Some (Inl e)
                   \<and> reason e = unknown))
          \<and> (int (precedingRun toLowerCase (chunks s) chunk) + 1 < r_loopThreshold (mergeConfig config) \<longrightarrow>
              map_option fst (checkStreamingChunk toLowerCase s chunk config ctx now)
                = Some (if ratio > 0.6 then Inl (failover HeavilyRepetitive unknown ctx) else Inr ()))"
  proof (intro exI conjI impI)
    show "detectRepetitionRatio T = Some ratio" using r by (simp add: T_def)
    show "map_option fst (checkStreamingChunk toLowerCase s chunk config ctx now)
            = Some (Inl (if int (precedingRun toLowerCase (chunks s) chunk) + 1 \<ge> r_loopThreshold (mergeConfig config)
                 then failover LoopingDetected unknown ctx else failover HeavilyRepetitive unknown ctx))"
      if "ratio > 0.6" unfolding out using that by simp
    show "reason (if int (precedingRun toLowerCase (chunks s) chunk) + 1 \<ge> r_loopThreshold (mergeConfig config)
                 then failover LoopingDetected unknown ctx else failover HeavilyRepetitive unknown ctx) = unknown"
      by simp
    show "map_option fst (checkStreamingChunk toLowerCase s chunk config ctx now)
                = Some (if ratio > 0.6 then Inl (failover HeavilyRepetitive unknown ctx) else Inr ())"
      if "int (precedingRun toLowerCase (chunks s) chunk) + 1 < r_loopThreshold (mergeConfig config)"
      unfolding out using that by simp
  qed
  then show ?thesis
    unfolding Let_def ratio_def n_def w_def T_def .
qed

theorem repetition_ratio_check_witness:
  "map_option fst (checkStreamingChunk lowerASCII
      \<lparr> chunks = [replicate 100 65 @ replicate 100 66, replicate 100 66 @ replicate 100 65],
         totalChars = 400, firstChunkAt = Some 1, startedAt = 0 \<rparr>
      (replicate 100 65 @ replicate 100 65) None None 3)
     = Some (Inl (failover HeavilyRepetitive unknown None))"
proof -
  define s where "s = \<lparr> chunks = [replicate 100 65 @ replicate 100 66, replicate 100 66 @ replicate 100 (65::nat)],
                        totalChars = 400, firstChunkAt = Some (1::int), startedAt = (0::int) \<rparr>"
  define c where "c = replicate 100 65 @ replicate 100 (65::nat)"
  have T: "concat (chunks s @ [c])
             = replicate 100 65 @ replicate 100 66 @ replicate 100 66 @ replicate 100 65 @ replicate 100 65
               @ replicate 100 65"
    by (simp add: s_def c_def)
  have run: "int (precedingRun lowerASCII (chunks s) c) + 1 < r_loopThreshold (mergeConfig None)"
    using abba_run by (simp add: s_def c_def)
  have h1: "r_enabled (mergeConfig None)" by simp
  have h2: "int (length c) \<ge> r_loopMinChunkLength (mergeConfig None)" by (simp add: c_def)
  have h3: "int (length (chunks s)) + 1 \<ge> r_loopThreshold (mergeConfig None)" by (simp add: s_def)
  have h4: "totalChars s + length c > 500" by (simp add: s_def c_def)
  have "map_option fst (checkStreamingChunk lowerASCII s c None None 3)
          = Some (Inl (failover HeavilyRepetitive unknown None))"
    using repetition_ratio_check [OF h1 h2 h3 h4, of lowerASCII None 3] run
    unfolding Let_def T by (simp add: abba_occurrences)
  then show ?thesis unfolding s_def c_def .
qed

theorem consecutive_repeats_raise_looping_witness:
  "map_option fst (checkStreamingChunk lowerASCII
      \<lparr> chunks = [js ''  Loop loop LOOP loop loop  '', js ''loop loop loop loop loop''],
        totalChars = 52, firstChunkAt = Some 1, startedAt = 0 \<rparr>
      (js ''LOOP loop loop loop loop'') None None 3)
     = Some (Inl (failover LoopingDetected unknown None))
   \<and> feedChunks lowerASCII (createQualityGuardState 0)
        [(replicate 60 120, 1), (replicate 60 120, 2), (replicate 60 120, 3), (replicate 60 120, 4),
         (replicate 60 120, 5)] None None
     = Some (Inl (failover LoopingDetected unknown None))"
proof -
  define s where "s = \<lparr> chunks = [js ''  Loop loop LOOP loop loop  '', js ''loop loop loop loop loop''],
        totalChars = 52, firstChunkAt = Some (1::int), startedAt = (0::int) \<rparr>"
  define c where "c = js ''LOOP loop loop loop loop''"
  define x :: jsstring where "x = replicate 60 120"
  have run: "precedingRun lowerASCII (chunks s) c = 2"
    by (simp add: s_def c_def precedingRun_def js_def lowerASCII_def trim_def isWhiteSpace_def)
  have h: "r_enabled (mergeConfig None) \<and> int (length c) \<ge> r_loopMinChunkLength (mergeConfig None)"
    by (simp add: c_def js_def)
  have t: "int (precedingRun lowerASCII (chunks s) c) + 1 \<ge> r_loopThreshold (mergeConfig None)"
    by (simp add: run)
  have l: "length x = 60" by (simp add: x_def)
  note inst = consecutive_repeats_raise_looping [of None c lowerASCII s None 3 x 0 1 2 3 4 5]
  from inst h t have "map_option fst (checkStreamingChunk lowerASCII s c None None 3)
     = Some (Inl (failover LoopingDetected unknown None))" by blast
  moreover from inst l have "feedChunks lowerASCII (createQualityGuardState 0) [(x, 1), (x, 2), (x, 3), (x, 4), (x, 5)] None None
     = Some (Inl (failover LoopingDetected unknown None))" by blast
  ultimately show ?thesis unfolding s_def c_def x_def by (rule conjI)
qed

subsection \<open>Stall detection\<close>

text \<open>
  C6, as the claim states it, fails: an empty chunk ingested by the enabled supervisor is
  appended to the state but does not set the first-chunk time stamp, so a later stall check
  still throws \<open>timeout\<close>.
\<close>

theorem stall_after_empty_chunk_counterexample:
  "checkStreamingChunk lowerASCII (createQualityGuardState 0) [] None None 1000
     = Some (Inr (), \<lparr> chunks = [[]], totalChars = 0, firstChunkAt = None, startedAt = 0 \<rparr>)
   \<and> checkForStall \<lparr> chunks = [[]], totalChars = 0, firstChunkAt = None, startedAt = 0 \<rparr> None None 31001
     = (Inl (failover Stalled timeout None),
        \<lparr> chunks = [[]], totalChars = 0, firstChunkAt = None, startedAt = 0 \<rparr>)"
  by (simp add: checkStreamingChunk_unfold recorded_def checkForStall_def Let_def)

lemma checkForStall_outcome:
  "fst (checkForStall s config ctx now) =
     (if r_enabled (mergeConfig config)
         \<and> real_of_int (now - startedAt s) / 1000 > real_of_int (r_stallTimeoutSeconds (mergeConfig config))
         \<and> firstChunkAt s = None
      then Inl (failover Stalled timeout ctx) else Inr ())"
  by (simp add: checkForStall_def Let_def)

text \<open>
  C6, amended. On a state created at time \<open>t0\<close> and used by any sequence of supervisor
  calls, an enabled stall check throws, with reason \<open>timeout\<close>, if and only if no enabled
  ingest of a non-empty chunk has taken place and the time elapsed since \<open>t0\<close> exceeds the
  stall timeout; otherwise it returns normally. So once a non-empty chunk has been
  ingested, no stall check on that state throws, whatever the time.
\<close>

theorem stall_iff_no_nonempty_chunk:
  "\<exists>st. runOps toLowerCase (createQualityGuardState t0) xs = Some st
     \<and> (r_enabled (mergeConfig config) \<longrightarrow>
          (fst (checkForStall st config ctx now) = Inl (failover Stalled timeout ctx)
           \<longleftrightarrow> \<not> (\<exists>x \<in> set xs. nonEmptyIngest x)
               \<and> real_of_int (now - t0) / 1000 > real_of_int (r_stallTimeoutSeconds (mergeConfig config))))
     \<and> (fst (checkForStall st config ctx now) = Inl (failover Stalled timeout ctx)
          \<or> fst (checkForStall st config ctx now) = Inr ())
     \<and> reason (failover Stalled timeout ctx) = timeout
     \<and> ((\<exists>x \<in> set xs. nonEmptyIngest x) \<longrightarrow> fst (checkForStall st config ctx now) = Inr ())"
proof -
  from runOps_effect [of toLowerCase "createQualityGuardState t0" xs] obtain st where
    "runOps toLowerCase (createQualityGuardState t0) xs = Some st
        \<and> chunks st = chunks (createQualityGuardState t0) @ ingested xs
        \<and> totalChars st = totalChars (createQualityGuardState t0) + sum_list (map length (ingested xs))
        \<and> startedAt st = startedAt (createQualityGuardState t0)
        \<and> (firstChunkAt st = None \<longleftrightarrow>
             firstChunkAt (createQualityGuardState t0) = None \<and> \<not> (\<exists>x \<in> set xs. nonEmptyIngest x))"
    by (elim exE)
  then have st: "runOps toLowerCase (createQualityGuardState t0) xs = Some st"
    and sa: "startedAt st = t0"
    and fc: "firstChunkAt st = None \<longleftrightarrow> \<not> (\<exists>x \<in> set xs. nonEmptyIngest x)"
    by simp_all
  show ?thesis
  proof (intro exI conjI)
    show "runOps toLowerCase (createQualityGuardState t0) xs = Some st" by (rule st)
  qed (auto simp: checkForStall_outcome sa fc)
qed

theorem stall_iff_no_nonempty_chunk_witness:
  "(\<exists>st. runOps lowerASCII (createQualityGuardState 0) [StallCheck None None 1000, Ingest (js ''Hi'') None None 2000]
          = Some st \<and> fst (checkForStall st None None 35000) = Inr ())
   \<and> (\<exists>st. runOps lowerASCII (createQualityGuardState 0) [StallCheck None None 1000, Ingest [] None None 2000]
          = Some st \<and> fst (checkForStall st None None 35000) = Inl (failover Stalled timeout None))"
proof -
  have a: "\<exists>x \<in> set [StallCheck None None 1000, Ingest (js ''Hi'') None None 2000]. nonEmptyIngest x"
    by (simp add: js_def)
  have b: "\<not> (\<exists>x \<in> set [StallCheck None None 1000, Ingest [] None None 2000]. nonEmptyIngest x)
           \<and> real_of_int (35000 - 0) / 1000 > real_of_int (r_stallTimeoutSeconds (mergeConfig None))"
    by simp
  have en: "r_enabled (mergeConfig None)" by simp
  from stall_iff_no_nonempty_chunk
         [of lowerASCII 0 "[StallCheck None None 1000, Ingest (js ''Hi'') None None 2000]" None None 35000] a
  have first: "\<exists>st. runOps lowerASCII (createQualityGuardState 0) [StallCheck None None 1000, Ingest (js ''Hi'') None None 2000]
          = Some st \<and> fst (checkForStall st None None 35000) = Inr ()"
    by (elim exE conjE) (intro exI conjI, assumption, simp)
  from stall_iff_no_nonempty_chunk
         [of lowerASCII 0 "[StallCheck None None 1000, Ingest [] None None 2000]" None None 35000] b en
  have second: "\<exists>st. runOps lowerASCII (createQualityGuardState 0) [StallCheck None None 1000, Ingest [] None None 2000]
          = Some st \<and> fst (checkForStall st None None 35000) = Inl (failover Stalled timeout None)"
    by (elim exE conjE) (intro exI conjI, assumption, simp)
  from first second show ?thesis by (rule conjI)
qed

subsection \<open>The enable flag\<close>

text \<open>
  C9. With the enable flag of the configuration set to false, each of the three checks
  returns normally and leaves the state as it was, for every state and every input: the
  chunk of a disabled ingest is not appended, the character total is not increased and the
  first-chunk time stamp is not set.
\<close>

theorem disabled_guard_is_noop:
  assumes "enabled c = Some False"
  shows "checkStreamingChunk toLowerCase s chunk (Some c) ctx now = Some (Inr (), s)
       \<and> checkForStall s (Some c) ctx now = (Inr (), s)
       \<and> checkFinalResponse s (Some c) ctx = (Inr (), s)"
proof -
  have "\<not> r_enabled (mergeConfig (Some c))" using assms by (simp add: mergeConfig_def)
  then show ?thesis
    by (simp add: checkStreamingChunk_unfold checkForStall_def checkFinalResponse_def Let_def)
qed

theorem disabled_guard_is_noop_witness:
  "checkStreamingChunk lowerASCII (createQualityGuardState 0) (js ''Repeated long chunk of content here'')
      (Some \<lparr> enabled = Some False, minResponseChars = None, stallTimeoutSeconds = None,
              loopThreshold = None, loopMinChunkLength = None \<rparr>) None 60000
     = Some (Inr (), createQualityGuardState 0)
   \<and> checkForStall (createQualityGuardState 0)
      (Some \<lparr> enabled = Some False, minResponseChars = None, stallTimeoutSeconds = None,
              loopThreshold = None, loopMinChunkLength = None \<rparr>) None 60000
     = (Inr (), createQualityGuardState 0)
   \<and> checkFinalResponse (createQualityGuardState 0)
      (Some \<lparr> enabled = Some False, minResponseChars = None, stallTimeoutSeconds = None,
              loopThreshold = None, loopMinChunkLength = None \<rparr>) None
     = (Inr (), createQualityGuardState 0)"
  using disabled_guard_is_noop
    [of "\<lparr> enabled = Some False, minResponseChars = None, stallTimeoutSeconds = None,
              loopThreshold = None, loopMinChunkLength = None \<rparr>"
        lowerASCII "createQualityGuardState 0" "js ''Repeated long chunk of content here''" None 60000]
  by simp

subsection \<open>The character total\<close>

text \<open>
  C10. Any sequence of supervisor calls on a state made by \<^verbatim>\<open>createQualityGuardState\<close>
  returns, whether or not some of the calls throw, and leaves a state whose chunk list is
  the list of the chunks ingested and whose \<open>totalChars\<close> is the sum of their lengths.
\<close>

theorem totalChars_is_sum_of_ingested:
  "\<exists>st. runOps toLowerCase (createQualityGuardState t0) xs = Some st
        \<and> chunks st = ingested xs
        \<and> totalChars st = sum_list (map length (ingested xs))
        \<and> totalChars st = sum_list (map length (chunks st))"
proof -
  from runOps_effect [of toLowerCase "createQualityGuardState t0" xs] obtain st where
    "runOps toLowerCase (createQualityGuardState t0) xs = Some st
        \<and> chunks st = chunks (createQualityGuardState t0) @ ingested xs
        \<and> totalChars st = totalChars (createQualityGuardState t0) + sum_list (map length (ingested xs))
        \<and> startedAt st = startedAt (createQualityGuardState t0)
        \<and> (firstChunkAt st = None \<longleftrightarrow>
             firstChunkAt (createQualityGuardState t0) = None \<and> \<not> (\<exists>x \<in> set xs. nonEmptyIngest x))"
    by (elim exE)
  then have "runOps toLowerCase (createQualityGuardState t0) xs = Some st" "chunks st = ingested xs"
    "totalChars st = sum_list (map length (ingested xs))"
    by simp_all
  then show ?thesis by simp
qed

theorem totalChars_is_sum_of_ingested_witness:
  "\<exists>st. runOps lowerASCII (createQualityGuardState 0)
      [Ingest (replicate 30 120) None None 1, Ingest (replicate 30 120) None None 2,
       Ingest (replicate 30 120) None None 3, Finalize None None, Ingest (js ''ok'') None None 4]
     = Some st
     \<and> chunks st = [replicate 30 120, replicate 30 120, replicate 30 120, js ''ok'']
     \<and> totalChars st = 92
     \<and> totalChars st = sum_list (map length (chunks st))"
  using totalChars_is_sum_of_ingested
      [of lowerASCII 0 "[Ingest (replicate 30 120) None None 1, Ingest (replicate 30 120) None None 2,
       Ingest (replicate 30 120) None None 3, Finalize None None, Ingest (js ''ok'') None None 4]"]
  by (simp add: js_def del: runOps.simps)


section \<open>Properties of the token budget\<close>

lemma scanWindows_bounds:
  "m \<le> fst (scanWindows ws m r)
   \<and> (\<forall>w \<in> set ws. usedPercent w \<le> fst (scanWindows ws m r))
   \<and> (fst (scanWindows ws m r) = m \<or> fst (scanWindows ws m r) \<in> usedPercent ` set ws)"
proof (induction ws arbitrary: m r)
  case Nil
  then show ?case by simp
next
  case (Cons w ws)
  show ?case
  proof (cases "usedPercent w > m")
    case True
    from Cons [of "usedPercent w" "resetAt w"] True show ?thesis by auto
  next
    case False
    from Cons [of m r] False show ?thesis by auto
  qed
qed

lemma scanWindows_reset:
  "snd (scanWindows ws m r) =
     (if fst (scanWindows ws m r) > m
      then (case firstWindowAt ws (fst (scanWindows ws m r)) of None \<Rightarrow> None | Some w \<Rightarrow> resetAt w)
      else r)"
proof (induction ws arbitrary: m r)
  case Nil
  then show ?case by simp
next
  case (Cons w ws)
  show ?case
  proof (cases "usedPercent w > m")
    case True
    have ge: "usedPercent w \<le> fst (scanWindows ws (usedPercent w) (resetAt w))"
      using scanWindows_bounds [of "usedPercent w" ws "resetAt w"] by simp
    show ?thesis
      using Cons [of "usedPercent w" "resetAt w"] True ge
      by (auto simp: firstWindowAt_def)
  next
    case False
    have "m \<le> fst (scanWindows ws m r)"
      using scanWindows_bounds [of m ws r] by simp
    then show ?thesis
      using Cons [of m r] False by (auto simp: firstWindowAt_def)
  qed
qed

lemma scanWindows_Max:
  assumes "ws \<noteq> []" and "\<forall>w \<in> set ws. 0 \<le> usedPercent w"
  shows "fst (scanWindows ws 0 r) = Max (usedPercent ` set ws)"
proof -
  define m where "m = fst (scanWindows ws 0 r)"
  have b: "\<forall>w \<in> set ws. usedPercent w \<le> m" "m = 0 \<or> m \<in> usedPercent ` set ws" "0 \<le> m"
    using scanWindows_bounds [of 0 ws r] by (simp_all add: m_def)
  obtain w where w: "w \<in> set ws" using assms(1) by (cases ws) auto
  have "m \<in> usedPercent ` set ws"
  proof (cases "m = 0")
    case True
    have "usedPercent w \<le> 0" using b(1) w True by simp
    moreover have "0 \<le> usedPercent w" using assms(2) w by simp
    ultimately have "usedPercent w = m" using True by simp
    then show ?thesis using w by auto
  next
    case False
    then show ?thesis using b(2) by simp
  qed
  then have "Max (usedPercent ` set ws) = m"
    using b(1) by (intro Max_eqI) auto
  then show ?thesis by (simp add: m_def)
qed

lemma firstWindowAt_found:
  "m \<in> usedPercent ` set ws \<Longrightarrow> \<exists>w. firstWindowAt ws m = Some w \<and> w \<in> set ws \<and> usedPercent w = m"
  unfolding firstWindowAt_def by (induction ws) auto

lemma defaultStatus_simps [simp]:
  "status_usedPercent (defaultStatus p) = 0" "\<not> isExhausted (defaultStatus p)"
  "status_resetAt (defaultStatus p) = None" "status_provider (defaultStatus p) = p"
  by (simp_all add: defaultStatus_def)

lemma getProviderBudget_windows:
  assumes "mapToUsageProviderId toLowerCase p = Some i"
    and "find (\<lambda>s. usage_provider s = i) (providers u) = Some snap"
    and "windows snap \<noteq> []"
  shows "getProviderBudget toLowerCase p (Some u) =
           \<lparr> status_provider = p,
             status_usedPercent = fst (scanWindows (windows snap) 0 None),
             isExhausted = (fst (scanWindows (windows snap) 0 None) \<ge> 90),
             status_resetAt = snd (scanWindows (windows snap) 0 None) \<rparr>"
  using assms by (simp add: getProviderBudget_def EXHAUSTION_THRESHOLD_def split: prod.splits)

lemma isExhausted_iff: "isExhausted (getProviderBudget toLowerCase p us) \<longleftrightarrow> status_usedPercent (getProviderBudget toLowerCase p us) \<ge> 90"
  by (simp add: getProviderBudget_def EXHAUSTION_THRESHOLD_def split: option.splits prod.splits)

text \<open>
  C4. The claim is what the source intends: the comment above the loop of
  \<^verbatim>\<open>getProviderBudget\<close> reads ``Use the most restrictive window (highest usedPercent)''.
  The loop misses it by a slip: it starts from \<open>maxUsed = 0\<close> and selects a window only on a
  strictly greater percentage, so a window that stands at 0 percent is never selected. For
  the mapped provider \<open>anthropic\<close> whose only window stands at 0 percent with the reset time
  123, the status returned carries no reset time, where the claim has the reset time of the
  window with the highest percentage, 123.
\<close>

theorem getProviderBudget_drops_reset_of_unused_window:
  "getProviderBudget lowerASCII (js ''anthropic'')
     (Some \<lparr> providers = [\<lparr> usage_provider = js ''anthropic'',
                              windows = [\<lparr> usedPercent = 0, resetAt = Some 123 \<rparr>] \<rparr>] \<rparr>)
   = \<lparr> status_provider = js ''anthropic'', status_usedPercent = 0, isExhausted = False,
       status_resetAt = None \<rparr>"
proof -
  have "mapToUsageProviderId lowerASCII (js ''anthropic'') = Some (js ''anthropic'')"
    by (simp add: mapToUsageProviderId_def usageProviderIds_def js_def lowerASCII_def
        trim_def isWhiteSpace_def)
  then show ?thesis
    by (simp add: getProviderBudget_def EXHAUSTION_THRESHOLD_def)
qed

text \<open>
  What the resolver computes. The status is the fresh one (\<open>usedPercent = 0\<close>, not
  exhausted) when no usage snapshot is given, when the provider name maps to no usage
  identity, when the snapshot has no entry for the mapped identity and when the entry found
  has no windows. Otherwise, the percentages being non-negative, \<open>usedPercent\<close> is the
  highest percentage among the windows of the entry and \<open>isExhausted\<close> holds iff it is at
  least 90; when it is above 0 the reset time is that of the first window that stands at it.
\<close>

lemma budget_status_resolver:
  "getProviderBudget toLowerCase p None = defaultStatus p
   \<and> (mapToUsageProviderId toLowerCase p = None \<longrightarrow> getProviderBudget toLowerCase p (Some u) = defaultStatus p)
   \<and> (mapToUsageProviderId toLowerCase p = Some i \<and> find (\<lambda>s. usage_provider s = i) (providers u) = None
        \<longrightarrow> getProviderBudget toLowerCase p (Some u) = defaultStatus p)
   \<and> (mapToUsageProviderId toLowerCase p = Some i \<and> find (\<lambda>s. usage_provider s = i) (providers u) = Some snap
        \<and> windows snap = []
        \<longrightarrow> getProviderBudget toLowerCase p (Some u) = defaultStatus p)
   \<and> status_usedPercent (defaultStatus p) = 0 \<and> \<not> isExhausted (defaultStatus p)
   \<and> (mapToUsageProviderId toLowerCase p = Some i \<and> find (\<lambda>s. usage_provider s = i) (providers u) = Some snap
        \<and> windows snap \<noteq> [] \<and> (\<forall>w \<in> set (windows snap). 0 \<le> usedPercent w)
        \<longrightarrow> status_usedPercent (getProviderBudget toLowerCase p (Some u)) = Max (usedPercent ` set (windows snap))
            \<and> (isExhausted (getProviderBudget toLowerCase p (Some u))
                 \<longleftrightarrow> status_usedPercent (getProviderBudget toLowerCase p (Some u)) \<ge> 90)
            \<and> (status_usedPercent (getProviderBudget toLowerCase p (Some u)) > 0 \<longrightarrow>
                 (\<exists>w. firstWindowAt (windows snap) (status_usedPercent (getProviderBudget toLowerCase p (Some u))) = Some w
                      \<and> status_resetAt (getProviderBudget toLowerCase p (Some u)) = resetAt w)))"
proof (intro conjI impI)
  assume a: "mapToUsageProviderId toLowerCase p = Some i \<and> find (\<lambda>s. usage_provider s = i) (providers u) = Some snap
        \<and> windows snap \<noteq> [] \<and> (\<forall>w \<in> set (windows snap). 0 \<le> usedPercent w)"
  define m where "m = fst (scanWindows (windows snap) 0 None)"
  have b: "getProviderBudget toLowerCase p (Some u) =
           \<lparr> status_provider = p, status_usedPercent = m, isExhausted = (m \<ge> 90),
             status_resetAt = snd (scanWindows (windows snap) 0 None) \<rparr>"
    using getProviderBudget_windows [of toLowerCase p i u snap] a by (simp add: m_def)
  have mx: "m = Max (usedPercent ` set (windows snap))"
    using scanWindows_Max [of "windows snap" None] a by (simp add: m_def)
  show "status_usedPercent (getProviderBudget toLowerCase p (Some u)) = Max (usedPercent ` set (windows snap))"
    by (simp add: b mx)
  show "isExhausted (getProviderBudget toLowerCase p (Some u)) \<longleftrightarrow> status_usedPercent (getProviderBudget toLowerCase p (Some u)) \<ge> 90"
    by (rule isExhausted_iff)
  assume "status_usedPercent (getProviderBudget toLowerCase p (Some u)) > 0"
  then have pos: "m > 0" by (simp add: b)
  have "m \<in> usedPercent ` set (windows snap)"
    using scanWindows_bounds [of 0 "windows snap" None] pos by (auto simp: m_def)
  then obtain w where w: "firstWindowAt (windows snap) m = Some w"
    using firstWindowAt_found by blast
  have "snd (scanWindows (windows snap) 0 None) = resetAt w"
    using scanWindows_reset [of "windows snap" 0 None] pos w by (simp add: m_def)
  then show "\<exists>w. firstWindowAt (windows snap) (status_usedPercent (getProviderBudget toLowerCase p (Some u))) = Some w
                      \<and> status_resetAt (getProviderBudget toLowerCase p (Some u)) = resetAt w"
    using w by (simp add: b)
qed (simp_all add: getProviderBudget_def)

lemma map_openai: "mapToUsageProviderId lowerASCII (js ''OpenAI '') = Some (js ''openai-codex'')"
  by (simp add: mapToUsageProviderId_def usageProviderIds_def js_def lowerASCII_def
      trim_def isWhiteSpace_def)

lemma map_anthropic: "mapToUsageProviderId lowerASCII (js ''anthropic'') = Some (js ''anthropic'')"
  by (simp add: mapToUsageProviderId_def usageProviderIds_def js_def lowerASCII_def
      trim_def isWhiteSpace_def)

lemma map_google: "mapToUsageProviderId lowerASCII (js ''google'') = Some (js ''google-antigravity'')"
  by (simp add: mapToUsageProviderId_def usageProviderIds_def js_def lowerASCII_def
      trim_def isWhiteSpace_def)

lemma map_ollama: "mapToUsageProviderId lowerASCII (js ''ollama'') = None"
  by (simp add: mapToUsageProviderId_def usageProviderIds_def js_def lowerASCII_def
      trim_def isWhiteSpace_def)

lemma ids_distinct:
  "js ''openai-codex'' \<noteq> js ''anthropic''" "js ''google-antigravity'' \<noteq> js ''anthropic''"
  "js ''google-antigravity'' \<noteq> js ''openai-codex''" "js ''anthropic'' \<noteq> js ''openai-codex''"
  "js ''anthropic'' \<noteq> js ''google-antigravity''" "js ''openai-codex'' \<noteq> js ''google-antigravity''"
  by (simp_all add: js_def)

lemma budget_status_resolver_example:
  "status_usedPercent (getProviderBudget lowerASCII (js ''OpenAI '')
      (Some \<lparr> providers = [\<lparr> usage_provider = js ''openai-codex'',
                 windows = [\<lparr> usedPercent = 30, resetAt = Some 111 \<rparr>, \<lparr> usedPercent = 95, resetAt = Some 777 \<rparr>] \<rparr>] \<rparr>))
     = 95
   \<and> isExhausted (getProviderBudget lowerASCII (js ''OpenAI '')
      (Some \<lparr> providers = [\<lparr> usage_provider = js ''openai-codex'',
                 windows = [\<lparr> usedPercent = 30, resetAt = Some 111 \<rparr>, \<lparr> usedPercent = 95, resetAt = Some 777 \<rparr>] \<rparr>] \<rparr>))
   \<and> status_resetAt (getProviderBudget lowerASCII (js ''OpenAI '')
      (Some \<lparr> providers = [\<lparr> usage_provider = js ''openai-codex'',
                 windows = [\<lparr> usedPercent = 30, resetAt = Some 111 \<rparr>, \<lparr> usedPercent = 95, resetAt = Some 777 \<rparr>] \<rparr>] \<rparr>))
     = Some 777"
proof -
  define snap where "snap = \<lparr> usage_provider = js ''openai-codex'',
                 windows = [\<lparr> usedPercent = 30, resetAt = Some 111 \<rparr>, \<lparr> usedPercent = 95, resetAt = Some 777 \<rparr>] \<rparr>"
  define u where "u = \<lparr> providers = [snap] \<rparr>"
  define b where "b = getProviderBudget lowerASCII (js ''OpenAI '') (Some u)"
  have h: "mapToUsageProviderId lowerASCII (js ''OpenAI '') = Some (js ''openai-codex'')
        \<and> find (\<lambda>s. usage_provider s = js ''openai-codex'') (providers u) = Some snap
        \<and> windows snap \<noteq> [] \<and> (\<forall>w \<in> set (windows snap). 0 \<le> usedPercent w)"
    by (simp add: map_openai u_def snap_def)
  have mx: "Max (usedPercent ` set (windows snap)) = 95" by (simp add: snap_def)
  from budget_status_resolver [of lowerASCII "js ''OpenAI ''" u "js ''openai-codex''" snap] h
  have r: "status_usedPercent b = Max (usedPercent ` set (windows snap))
            \<and> (isExhausted b \<longleftrightarrow> status_usedPercent b \<ge> 90)
            \<and> (status_usedPercent b > 0 \<longrightarrow>
                 (\<exists>w. firstWindowAt (windows snap) (status_usedPercent b) = Some w
                      \<and> status_resetAt b = resetAt w))"
    unfolding b_def by blast
  then have p: "status_usedPercent b = 95" using mx by simp
  then have e: "isExhausted b" using r by simp
  have "firstWindowAt (windows snap) 95 = Some \<lparr> usedPercent = 95, resetAt = Some 777 \<rparr>"
    by (simp add: firstWindowAt_def snap_def)
  then have t: "status_resetAt b = Some 777" using r p by auto
  from p e t show ?thesis unfolding b_def u_def snap_def by simp
qed

subsection \<open>The budget filter\<close>

lemma bucketCandidates_filter:
  "bucketCandidates toLowerCase cs (Some u) f h e =
     (f @ filter (\<lambda>c. budgetPercent toLowerCase u c < 75) cs,
      h @ filter (\<lambda>c. 75 \<le> budgetPercent toLowerCase u c \<and> budgetPercent toLowerCase u c < 90) cs,
      e @ filter (\<lambda>c. 90 \<le> budgetPercent toLowerCase u c) cs)"
proof (induction cs arbitrary: f h e)
  case Nil
  then show ?case by simp
next
  case (Cons c cs)
  show ?case
    using Cons [of f h "e @ [c]"] Cons [of f "h @ [c]" e] Cons [of "f @ [c]" h e]
      isExhausted_iff [of toLowerCase "provider c" "Some u"]
    by (auto simp: Let_def budgetPercent_def DEPRIORITIZE_THRESHOLD_def)
qed

lemma filterByBudget_noop: "usageSummary = None \<or> length cs < 2 \<Longrightarrow> filterByBudget toLowerCase cs usageSummary = cs"
  by (auto simp: filterByBudget_def)

lemma filterByBudget_buckets:
  "2 \<le> length cs \<Longrightarrow>
     filterByBudget toLowerCase cs (Some u) =
       filter (\<lambda>c. budgetPercent toLowerCase u c < 75) cs
       @ filter (\<lambda>c. 75 \<le> budgetPercent toLowerCase u c \<and> budgetPercent toLowerCase u c < 90) cs
       @ filter (\<lambda>c. 90 \<le> budgetPercent toLowerCase u c) cs"
  by (simp add: filterByBudget_def bucketCandidates_filter)

lemma three_way_mset:
  "mset (filter (\<lambda>c. (k c :: real) < 75) cs) + mset (filter (\<lambda>c. 75 \<le> k c \<and> k c < 90) cs)
     + mset (filter (\<lambda>c. 90 \<le> k c) cs) = mset cs"
  by (induction cs) auto

lemma filterByBudget_mset: "mset (filterByBudget toLowerCase cs usageSummary) = mset cs"
proof (cases "usageSummary = None \<or> length cs < 2")
  case True
  then show ?thesis by (simp add: filterByBudget_noop)
next
  case False
  then obtain u where u: "usageSummary = Some u" and l: "2 \<le> length cs" by auto
  show ?thesis
    unfolding u filterByBudget_buckets [OF l] using three_way_mset [of "budgetPercent toLowerCase u" cs]
    by (simp add: ac_simps)
qed

text \<open>
  C5. The budget filter returns its input when there is no usage snapshot or there are
  fewer than two candidates. Otherwise the result is the candidates below 75 percent,
  followed by those from 75 and below 90, followed by those from 90 on, each group in
  its original order; none is removed. A candidate at exactly 75 is in the second group,
  one at exactly 90 in the third.
\<close>

theorem budget_filter_buckets:
  "(usageSummary = None \<or> length cs < 2 \<longrightarrow> filterByBudget toLowerCase cs usageSummary = cs)
   \<and> (2 \<le> length cs \<longrightarrow>
        filterByBudget toLowerCase cs (Some u) =
          filter (\<lambda>c. budgetPercent toLowerCase u c < 75) cs
          @ filter (\<lambda>c. 75 \<le> budgetPercent toLowerCase u c \<and> budgetPercent toLowerCase u c < 90) cs
          @ filter (\<lambda>c. 90 \<le> budgetPercent toLowerCase u c) cs)
   \<and> mset (filterByBudget toLowerCase cs usageSummary) = mset cs"
  using filterByBudget_noop [of usageSummary cs toLowerCase] filterByBudget_buckets [of cs toLowerCase u]
    filterByBudget_mset [of toLowerCase cs usageSummary]
  by blast

theorem budget_filter_buckets_witness:
  "filterByBudget lowerASCII
     [\<lparr> provider = js ''OpenAI '', model = js ''gpt-5.3-codex'' \<rparr>,
      \<lparr> provider = js ''anthropic'', model = js ''claude-opus-4-5'' \<rparr>,
      \<lparr> provider = js ''google'', model = js ''gemini-3-flash'' \<rparr>,
      \<lparr> provider = js ''ollama'', model = js ''qwen2.5-coder:7b'' \<rparr>]
     (Some \<lparr> providers =
        [\<lparr> usage_provider = js ''openai-codex'', windows = [\<lparr> usedPercent = 90, resetAt = None \<rparr>] \<rparr>,
         \<lparr> usage_provider = js ''anthropic'', windows = [\<lparr> usedPercent = 75, resetAt = None \<rparr>] \<rparr>,
         \<lparr> usage_provider = js ''google-antigravity'', windows = [\<lparr> usedPercent = 89.9, resetAt = None \<rparr>] \<rparr>] \<rparr>)
   = [\<lparr> provider = js ''ollama'', model = js ''qwen2.5-coder:7b'' \<rparr>,
      \<lparr> provider = js ''anthropic'', model = js ''claude-opus-4-5'' \<rparr>,
      \<lparr> provider = js ''google'', model = js ''gemini-3-flash'' \<rparr>,
      \<lparr> provider = js ''OpenAI '', model = js ''gpt-5.3-codex'' \<rparr>]
   \<and> filterByBudget lowerASCII
     [\<lparr> provider = js ''OpenAI '', model = js ''gpt-5.3-codex'' \<rparr>,
      \<lparr> provider = js ''anthropic'', model = js ''claude-opus-4-5'' \<rparr>] None
   = [\<lparr> provider = js ''OpenAI '', model = js ''gpt-5.3-codex'' \<rparr>,
      \<lparr> provider = js ''anthropic'', model = js ''claude-opus-4-5'' \<rparr>]"
proof -
  define c1 where "c1 = \<lparr> provider = js ''OpenAI '', model = js ''gpt-5.3-codex'' \<rparr>"
  define c2 where "c2 = \<lparr> provider = js ''anthropic'', model = js ''claude-opus-4-5'' \<rparr>"
  define c3 where "c3 = \<lparr> provider = js ''google'', model = js ''gemini-3-flash'' \<rparr>"
  define c4 where "c4 = \<lparr> provider = js ''ollama'', model = js ''qwen2.5-coder:7b'' \<rparr>"
  define u where "u = \<lparr> providers =
        [\<lparr> usage_provider = js ''openai-codex'', windows = [\<lparr> usedPercent = 90, resetAt = None \<rparr>] \<rparr>,
         \<lparr> usage_provider = js ''anthropic'', windows = [\<lparr> usedPercent = 75, resetAt = None \<rparr>] \<rparr>,
         \<lparr> usage_provider = js ''google-antigravity'', windows = [\<lparr> usedPercent = 89.9, resetAt = None \<rparr>] \<rparr>] \<rparr>"
  have p1: "budgetPercent lowerASCII u c1 = 90"
    by (simp add: budgetPercent_def getProviderBudget_def c1_def u_def map_openai)
  have p2: "budgetPercent lowerASCII u c2 = 75"
    by (simp add: budgetPercent_def getProviderBudget_def c2_def u_def map_anthropic ids_distinct)
  have p3: "budgetPercent lowerASCII u c3 = 89.9"
    by (simp add: budgetPercent_def getProviderBudget_def c3_def u_def map_google ids_distinct)
  have p4: "budgetPercent lowerASCII u c4 = 0"
    by (simp add: budgetPercent_def getProviderBudget_def c4_def u_def map_ollama)
  have "filterByBudget lowerASCII [c1, c2, c3, c4] (Some u) = [c4, c2, c3, c1]"
    using budget_filter_buckets [of "Some u" "[c1, c2, c3, c4]" lowerASCII u] by (simp add: p1 p2 p3 p4)
  moreover have "filterByBudget lowerASCII [c1, c2] None = [c1, c2]"
    using budget_filter_buckets [of None "[c1, c2]" lowerASCII u] by simp
  ultimately show ?thesis unfolding c1_def c2_def c3_def c4_def u_def by (rule conjI)
qed


section \<open>Properties of the classifier\<close>

lemma canonicalize_white: "isWhiteSpace c \<Longrightarrow> canonicalize c = c"
  by (auto simp: isWhiteSpace_def canonicalize_def)

lemma canonicalize_visible:
  assumes "canonicalize c = canonicalize p" and "isWhiteSpace c"
  shows "isWhiteSpace p"
proof -
  have c: "canonicalize p = c" using assms canonicalize_white by simp
  have "\<not> isWhiteSpace 376" "\<not> isWhiteSpace 924" by (simp_all add: isWhiteSpace_def)
  moreover have "\<not> isWhiteSpace (p - 32)" if "(97 \<le> p \<and> p \<le> 122) \<or> (224 \<le> p \<and> p \<le> 254 \<and> p \<noteq> 247)"
    using that by (auto simp: isWhiteSpace_def)
  ultimately show ?thesis
    using c assms(2) by (auto simp: canonicalize_def split: if_splits)
qed

lemma visibleClass_inClass: "visibleClass cl \<Longrightarrow> inClass cl c \<Longrightarrow> \<not> isWhiteSpace c"
proof (cases cl)
  case (UnitI p)
  assume "visibleClass cl" "inClass cl c"
  then show ?thesis using UnitI canonicalize_visible [of c p] by auto
next
  case (OneOfI ps)
  assume "visibleClass cl" "inClass cl c"
  then obtain p where "p \<in> set ps" "canonicalize c = canonicalize p" "\<not> isWhiteSpace p"
    using OneOfI by (auto simp: list_all_iff)
  then show ?thesis using canonicalize_visible [of c p] by auto
qed (auto simp: list_all_iff isWhiteSpace_def)

lemma starEnds_subset: "q \<in> set (starEnds cl p) \<Longrightarrow> set (snd q) \<subseteq> set (snd p)"
  by (induction cl p rule: starEnds.induct) (auto split: if_splits)

lemma chrEnds_subset: "q \<in> set (chrEnds cl p) \<Longrightarrow> set (snd q) \<subseteq> set (snd p)"
  by (induction cl p rule: chrEnds.induct) (auto split: if_splits)

lemma chrEnds_visible: "q \<in> set (chrEnds cl p) \<Longrightarrow> visibleClass cl \<Longrightarrow> \<exists>c \<in> set (snd p). \<not> isWhiteSpace c"
  by (induction cl p rule: chrEnds.induct) (auto split: if_splits dest: visibleClass_inClass)

lemma plus_ends:
  "q \<in> set (rmatch (Plus cl) p) \<Longrightarrow> \<exists>p'. p' \<in> set (chrEnds cl p) \<and> q \<in> set (starEnds cl p')"
  by auto

lemma seq_ends:
  "q \<in> set (rmatch (Seq r1 r2) p) \<Longrightarrow> \<exists>p'. p' \<in> set (rmatch r1 p) \<and> q \<in> set (rmatch r2 p')"
  by auto

lemma rmatch_subset: "q \<in> set (rmatch r p) \<Longrightarrow> set (snd q) \<subseteq> set (snd p)"
proof (induction r arbitrary: p q)
  case (Plus cl)
  from plus_ends [OF Plus.prems] obtain p' where "p' \<in> set (chrEnds cl p)" "q \<in> set (starEnds cl p')"
    by blast
  then show ?case using starEnds_subset [of q cl p'] chrEnds_subset [of p' cl p] by blast
next
  case (Seq r1 r2)
  from seq_ends [OF Seq.prems] obtain p' where "p' \<in> set (rmatch r1 p)" "q \<in> set (rmatch r2 p')"
    by blast
  then show ?case using Seq.IH(1) [of p' p] Seq.IH(2) [of q p'] by blast
next
  case (Chr cl)
  then show ?case using chrEnds_subset [of q cl p] by simp
next
  case (Star cl)
  then show ?case using starEnds_subset [of q cl p] by simp
next
  case (Opt r)
  from Opt.prems have "q \<in> set (rmatch r p) \<or> q = p" by auto
  then show ?case using Opt.IH [of q p] by blast
next
  case (Alt r1 r2)
  from Alt.prems have "q \<in> set (rmatch r1 p) \<or> q \<in> set (rmatch r2 p)" by auto
  then show ?case using Alt.IH(1) [of q p] Alt.IH(2) [of q p] by blast
next
  case Empty
  then show ?case by simp
next
  case WordBoundary
  then show ?case by (simp split: if_splits)
qed

lemma rmatch_visible:
  "q \<in> set (rmatch r p) \<Longrightarrow> needsVisible r \<Longrightarrow> \<exists>c \<in> set (snd p). \<not> isWhiteSpace c"
proof (induction r arbitrary: p q)
  case (Chr cl)
  then show ?case using chrEnds_visible [of q cl p] by simp
next
  case (Plus cl)
  from plus_ends [OF Plus.prems(1)] obtain p' where "p' \<in> set (chrEnds cl p)" by blast
  then show ?case using chrEnds_visible [of p' cl p] Plus.prems(2) by simp
next
  case (Seq r1 r2)
  from seq_ends [OF Seq.prems(1)] obtain p' where p': "p' \<in> set (rmatch r1 p)" "q \<in> set (rmatch r2 p')"
    by blast
  show ?case
  proof (cases "needsVisible r1")
    case True
    then show ?thesis using Seq.IH(1) [OF p'(1)] by blast
  next
    case False
    then have "needsVisible r2" using Seq.prems(2) by simp
    then obtain c where "c \<in> set (snd p')" "\<not> isWhiteSpace c" using Seq.IH(2) [OF p'(2)] by blast
    then show ?thesis using rmatch_subset [OF p'(1)] by blast
  qed
next
  case (Alt r1 r2)
  from Alt.prems have "q \<in> set (rmatch r1 p) \<or> q \<in> set (rmatch r2 p)"
    and "needsVisible r1" "needsVisible r2" by auto
  then show ?case using Alt.IH(1) [of q p] Alt.IH(2) [of q p] by blast
qed simp_all

lemma positions_subset: "p \<in> set (positions prev s) \<Longrightarrow> set (snd p) \<subseteq> set s"
  by (induction prev s rule: positions.induct) auto

lemma test_visible:
  assumes "test r s" and "needsVisible r"
  shows "\<exists>c \<in> set s. \<not> isWhiteSpace c"
proof -
  from assms(1) obtain p where p: "p \<in> set (positions None s)" "rmatch r p \<noteq> []"
    by (auto simp: test_def list_ex_iff)
  then obtain q where "q \<in> set (rmatch r p)" by (cases "rmatch r p") auto
  then obtain c where "c \<in> set (snd p)" "\<not> isWhiteSpace c"
    using rmatch_visible [OF _ assms(2)] by blast
  then show ?thesis using positions_subset [OF p(1)] by blast
qed

lemma scorePatterns_count: "scorePatterns ps s acc = acc + matchCount ps s"
  by (induction ps arbitrary: acc) (auto simp: matchCount_def)

lemma matchCount_white:
  assumes "list_all needsVisible ps" and "\<forall>c \<in> set s. isWhiteSpace c"
  shows "matchCount ps s = 0"
proof -
  have "\<not> test r s" if "r \<in> set ps" for r
  proof
    assume "test r s"
    moreover have "needsVisible r" using assms(1) that by (simp add: list_all_iff)
    ultimately show False using test_visible assms(2) by blast
  qed
  then show ?thesis by (simp add: matchCount_def filter_empty_conv)
qed

lemmas pattern_defs = wordsI_def seqs_def lit_def liti_def sp_def sps_def andOrAmp_def isWhiteSpace_def

lemma visible_CODE: "list_all needsVisible CODE_PATTERNS"
  by (simp add: CODE_PATTERNS_def pattern_defs)

lemma visible_REASONING: "list_all needsVisible REASONING_PATTERNS"
  by (simp add: REASONING_PATTERNS_def pattern_defs)

lemma visible_CREATIVE: "list_all needsVisible CREATIVE_PATTERNS"
  by (simp add: CREATIVE_PATTERNS_def pattern_defs)

lemma visible_TRANSLATION: "list_all needsVisible TRANSLATION_PATTERNS"
  by (simp add: TRANSLATION_PATTERNS_def pattern_defs)

lemma pickBest_scores:
  "pickBest [(code, a), (reasoning, b), (creative, c), (translation, d), (general, g)] general 0 =
     (if a > 0 \<and> a \<ge> b \<and> a \<ge> c \<and> a \<ge> d then code
      else if b > 0 \<and> b \<ge> c \<and> b \<ge> d then reasoning
      else if c > 0 \<and> c \<ge> d then creative
      else if d > 0 then translation
      else general)"
  by auto

lemma classify_nonempty:
  "s \<noteq> [] \<Longrightarrow>
     classifyTaskType (Some s) =
       pickBest [(code, matchCount CODE_PATTERNS s), (reasoning, matchCount REASONING_PATTERNS s),
                 (creative, matchCount CREATIVE_PATTERNS s), (translation, matchCount TRANSLATION_PATTERNS s),
                 (general, 0)] general 0"
  by (simp add: classifyTaskType_def scorePatterns_count)

lemma classify_white:
  assumes "\<forall>c \<in> set s. isWhiteSpace c"
  shows "classifyTaskType (Some s) = general"
proof (cases "s = []")
  case True
  then show ?thesis by (simp add: classifyTaskType_def)
next
  case False
  have "matchCount CODE_PATTERNS s = 0" "matchCount REASONING_PATTERNS s = 0"
    "matchCount CREATIVE_PATTERNS s = 0" "matchCount TRANSLATION_PATTERNS s = 0"
    using assms matchCount_white visible_CODE visible_REASONING visible_CREATIVE visible_TRANSLATION
    by blast+
  then show ?thesis using False by (simp add: classify_nonempty)
qed

text \<open>
  C2. An absent, empty or white-space-only prompt is classified \<open>general\<close>. For any other
  prompt, with each category scored by the number of its patterns that match, the result
  is \<open>code\<close> iff its score is positive and not below any other; \<open>reasoning\<close> iff its
  score exceeds that of \<open>code\<close> and is not below those of \<open>creative\<close> and
  \<open>translation\<close>; \<open>creative\<close> iff its score exceeds those of \<open>code\<close> and
  \<open>reasoning\<close> and is not below that of \<open>translation\<close>; \<open>translation\<close> iff its score
  exceeds the three others; \<open>general\<close> iff the four scores are 0.
\<close>

theorem classifyTaskType_by_scores:
  "classifyTaskType None = general
   \<and> classifyTaskType (Some []) = general
   \<and> ((\<forall>c \<in> set s. isWhiteSpace c) \<longrightarrow> classifyTaskType (Some s) = general)
   \<and> (s \<noteq> [] \<longrightarrow>
        (classifyTaskType (Some s) = code \<longleftrightarrow>
           matchCount CODE_PATTERNS s > 0
           \<and> matchCount CODE_PATTERNS s \<ge> matchCount REASONING_PATTERNS s
           \<and> matchCount CODE_PATTERNS s \<ge> matchCount CREATIVE_PATTERNS s
           \<and> matchCount CODE_PATTERNS s \<ge> matchCount TRANSLATION_PATTERNS s)
      \<and> (classifyTaskType (Some s) = reasoning \<longleftrightarrow>
           matchCount REASONING_PATTERNS s > matchCount CODE_PATTERNS s
           \<and> matchCount REASONING_PATTERNS s \<ge> matchCount CREATIVE_PATTERNS s
           \<and> matchCount REASONING_PATTERNS s \<ge> matchCount TRANSLATION_PATTERNS s)
      \<and> (classifyTaskType (Some s) = creative \<longleftrightarrow>
           matchCount CREATIVE_PATTERNS s > matchCount CODE_PATTERNS s
           \<and> matchCount CREATIVE_PATTERNS s > matchCount REASONING_PATTERNS s
           \<and> matchCount CREATIVE_PATTERNS s \<ge> matchCount TRANSLATION_PATTERNS s)
      \<and> (classifyTaskType (Some s) = translation \<longleftrightarrow>
           matchCount TRANSLATION_PATTERNS s > matchCount CODE_PATTERNS s
           \<and> matchCount TRANSLATION_PATTERNS s > matchCount REASONING_PATTERNS s
           \<and> matchCount TRANSLATION_PATTERNS s > matchCount CREATIVE_PATTERNS s)
      \<and> (classifyTaskType (Some s) = general \<longleftrightarrow>
           matchCount CODE_PATTERNS s = 0 \<and> matchCount REASONING_PATTERNS s = 0
           \<and> matchCount CREATIVE_PATTERNS s = 0 \<and> matchCount TRANSLATION_PATTERNS s = 0))"
proof (intro conjI impI)
  show "classifyTaskType None = general" by (simp add: classifyTaskType_def)
  show "classifyTaskType (Some []) = general" by (simp add: classifyTaskType_def)
  show "classifyTaskType (Some s) = general" if "\<forall>c \<in> set s. isWhiteSpace c"
    using that by (rule classify_white)
next
  assume ne: "s \<noteq> []"
  define a b c d where "a = matchCount CODE_PATTERNS s" and "b = matchCount REASONING_PATTERNS s"
    and "c = matchCount CREATIVE_PATTERNS s" and "d = matchCount TRANSLATION_PATTERNS s"
  have r: "classifyTaskType (Some s) =
     (if a > 0 \<and> a \<ge> b \<and> a \<ge> c \<and> a \<ge> d then code
      else if b > 0 \<and> b \<ge> c \<and> b \<ge> d then reasoning
      else if c > 0 \<and> c \<ge> d then creative
      else if d > 0 then translation
      else general)"
    unfolding classify_nonempty [OF ne] a_def b_def c_def d_def by (rule pickBest_scores)
  show "classifyTaskType (Some s) = code \<longleftrightarrow>
           matchCount CODE_PATTERNS s > 0
           \<and> matchCount CODE_PATTERNS s \<ge> matchCount REASONING_PATTERNS s
           \<and> matchCount CODE_PATTERNS s \<ge> matchCount CREATIVE_PATTERNS s
           \<and> matchCount CODE_PATTERNS s \<ge> matchCount TRANSLATION_PATTERNS s"
    unfolding r a_def [symmetric] b_def [symmetric] c_def [symmetric] d_def [symmetric] by simp
  show "classifyTaskType (Some s) = reasoning \<longleftrightarrow>
           matchCount REASONING_PATTERNS s > matchCount CODE_PATTERNS s
           \<and> matchCount REASONING_PATTERNS s \<ge> matchCount CREATIVE_PATTERNS s
           \<and> matchCount REASONING_PATTERNS s \<ge> matchCount TRANSLATION_PATTERNS s"
    unfolding r a_def [symmetric] b_def [symmetric] c_def [symmetric] d_def [symmetric] by auto
  show "classifyTaskType (Some s) = creative \<longleftrightarrow>
           matchCount CREATIVE_PATTERNS s > matchCount CODE_PATTERNS s
           \<and> matchCount CREATIVE_PATTERNS s > matchCount REASONING_PATTERNS s
           \<and> matchCount CREATIVE_PATTERNS s \<ge> matchCount TRANSLATION_PATTERNS s"
    unfolding r a_def [symmetric] b_def [symmetric] c_def [symmetric] d_def [symmetric] by auto
  show "classifyTaskType (Some s) = translation \<longleftrightarrow>
           matchCount TRANSLATION_PATTERNS s > matchCount CODE_PATTERNS s
           \<and> matchCount TRANSLATION_PATTERNS s > matchCount REASONING_PATTERNS s
           \<and> matchCount TRANSLATION_PATTERNS s > matchCount CREATIVE_PATTERNS s"
    unfolding r a_def [symmetric] b_def [symmetric] c_def [symmetric] d_def [symmetric] by auto
  show "classifyTaskType (Some s) = general \<longleftrightarrow>
           matchCount CODE_PATTERNS s = 0 \<and> matchCount REASONING_PATTERNS s = 0
           \<and> matchCount CREATIVE_PATTERNS s = 0 \<and> matchCount TRANSLATION_PATTERNS s = 0"
    unfolding r a_def [symmetric] b_def [symmetric] c_def [symmetric] d_def [symmetric] by auto
qed

lemmas eval_defs = matchCount_def test_def wordsI_def seqs_def lit_def liti_def sp_def sps_def andOrAmp_def
  canonicalize_def isWordChar_def isWhiteSpace_def js_def

lemma explain_why_debug_counts:
  "matchCount CODE_PATTERNS (js ''explain why debug'') = 1"
  "matchCount REASONING_PATTERNS (js ''explain why debug'') = 1"
  "matchCount CREATIVE_PATTERNS (js ''explain why debug'') = 0"
  "matchCount TRANSLATION_PATTERNS (js ''explain why debug'') = 0"
  by (simp_all add: eval_defs CODE_PATTERNS_def REASONING_PATTERNS_def CREATIVE_PATTERNS_def
      TRANSLATION_PATTERNS_def)

theorem classifyTaskType_by_scores_witness:
  "classifyTaskType (Some [32, 32, 32, 10, 9, 32, 32]) = general
   \<and> classifyTaskType (Some (js ''explain why debug'')) = code"
proof -
  have w: "\<forall>c \<in> set [32, 32, 32, 10, 9, 32, 32]. isWhiteSpace c" by (simp add: isWhiteSpace_def)
  have ne: "js ''explain why debug'' \<noteq> []" by (simp add: js_def)
  from classifyTaskType_by_scores [of "[32, 32, 32, 10, 9, 32, 32]"] w
  have first: "classifyTaskType (Some [32, 32, 32, 10, 9, 32, 32]) = general" by blast
  from classifyTaskType_by_scores [of "js ''explain why debug''"] ne
  have "classifyTaskType (Some (js ''explain why debug'')) = code \<longleftrightarrow>
           matchCount CODE_PATTERNS (js ''explain why debug'') > 0
           \<and> matchCount CODE_PATTERNS (js ''explain why debug'') \<ge> matchCount REASONING_PATTERNS (js ''explain why debug'')
           \<and> matchCount CODE_PATTERNS (js ''explain why debug'') \<ge> matchCount CREATIVE_PATTERNS (js ''explain why debug'')
           \<and> matchCount CODE_PATTERNS (js ''explain why debug'') \<ge> matchCount TRANSLATION_PATTERNS (js ''explain why debug'')"
    by blast
  then have second: "classifyTaskType (Some (js ''explain why debug'')) = code"
    unfolding explain_why_debug_counts by simp
  from first second show ?thesis by (rule conjI)
qed


section \<open>Properties of the smart routing\<close>

subsection \<open>Fragment matching\<close>

lemma includesStr_sublist: "includesStr key f \<longleftrightarrow> sublist f key"
  by (induction key) (auto simp: sublist_Cons_right)

lemma matchFrom_range: "matchFrom toLowerCase key fs i = -1 \<or> (int i \<le> matchFrom toLowerCase key fs i \<and> matchFrom toLowerCase key fs i < int (i + length fs))"
proof (induction fs arbitrary: i)
  case Nil
  then show ?case by simp
next
  case (Cons f fs)
  show ?case using Cons [of "Suc i"] by (cases "includesStr key (toLowerCase f)") auto
qed

lemma matchFrom_index:
  "matchFrom toLowerCase key fs i = int (i + k) \<longleftrightarrow>
     k < length fs \<and> includesStr key (toLowerCase (fs ! k)) \<and> (\<forall>j < k. \<not> includesStr key (toLowerCase (fs ! j)))"
proof (induction fs arbitrary: i k)
  case Nil
  then show ?case by simp
next
  case (Cons f fs)
  show ?case
  proof (cases "includesStr key (toLowerCase f)")
    case True
    then show ?thesis by (cases k) auto
  next
    case False
    show ?thesis
    proof (cases k)
      case 0
      have "matchFrom toLowerCase key fs (Suc i) \<noteq> int i" using matchFrom_range [of toLowerCase key fs "Suc i"] by auto
      then show ?thesis using False 0 by simp
    next
      case (Suc k')
      have "(\<forall>j < Suc k'. \<not> includesStr key (toLowerCase ((f # fs) ! j)))
            \<longleftrightarrow> (\<forall>j < k'. \<not> includesStr key (toLowerCase (fs ! j)))"
        using False by (auto simp: less_Suc_eq_0_disj)
      then show ?thesis using False Suc Cons [of "Suc i" k'] by simp
    qed
  qed
qed

lemma matchFrom_none:
  "matchFrom toLowerCase key fs i = -1 \<longleftrightarrow> (\<forall>j < length fs. \<not> includesStr key (toLowerCase (fs ! j)))"
proof (induction fs arbitrary: i)
  case Nil
  then show ?case by simp
next
  case (Cons f fs)
  show ?case
  proof (cases "includesStr key (toLowerCase f)")
    case True
    then show ?thesis by auto
  next
    case False
    have "(\<forall>j < length (f # fs). \<not> includesStr key (toLowerCase ((f # fs) ! j)))
            \<longleftrightarrow> (\<forall>j < length fs. \<not> includesStr key (toLowerCase (fs ! j)))"
      using False by (auto simp: less_Suc_eq_0_disj)
    then show ?thesis using False Cons [of "Suc i"] by simp
  qed
qed

lemma matchAffinity_range:
  "matchAffinity toLowerCase c fs = -1 \<or> (0 \<le> matchAffinity toLowerCase c fs \<and> matchAffinity toLowerCase c fs < int (length fs))"
  using matchFrom_range [of toLowerCase "candidateKey toLowerCase c" fs 0] by (simp add: matchAffinity_def)

lemma rankOf_le: "rankOf toLowerCase fs c \<le> length fs"
  using matchAffinity_range [of toLowerCase c fs] by (auto simp: rankOf_def)

lemma rankOf_index: "i < length fs \<Longrightarrow> rankOf toLowerCase fs c = i \<longleftrightarrow> matchAffinity toLowerCase c fs = int i"
  using matchAffinity_range [of toLowerCase c fs] by (auto simp: rankOf_def)

lemma rankOf_none: "rankOf toLowerCase fs c = length fs \<longleftrightarrow> matchAffinity toLowerCase c fs = -1"
  using matchAffinity_range [of toLowerCase c fs] by (auto simp: rankOf_def)


subsection \<open>The sort\<close>

lemma affinityOf_eq_iff: "affinityOf toLowerCase fs a = affinityOf toLowerCase fs b \<longleftrightarrow> rankOf toLowerCase fs a = rankOf toLowerCase fs b"
  using matchAffinity_range [of toLowerCase a fs] matchAffinity_range [of toLowerCase b fs]
  by (auto simp: affinityOf_def rankOf_def)

lemma affinityOf_positive:
  "positive (js_minus (affinityOf toLowerCase fs a) (affinityOf toLowerCase fs b)) \<longleftrightarrow> rankOf toLowerCase fs a > rankOf toLowerCase fs b"
  using matchAffinity_range [of toLowerCase a fs] matchAffinity_range [of toLowerCase b fs]
  by (auto simp: affinityOf_def rankOf_def)

lemma compareScored_positive:
  assumes "affinityIndex a = affinityOf toLowerCase fs (candidate a)" and "affinityIndex b = affinityOf toLowerCase fs (candidate b)"
    and "originalIndex a < originalIndex b"
  shows "positive (compareScored a b) \<longleftrightarrow> \<not> rankOf toLowerCase fs (candidate a) \<le> rankOf toLowerCase fs (candidate b)"
  using assms affinityOf_eq_iff [of toLowerCase fs "candidate a" "candidate b"]
    affinityOf_positive [of toLowerCase fs "candidate a" "candidate b"]
  by (auto simp: compareScored_def)

lemma insertBy_insort:
  assumes "affinityIndex x = affinityOf toLowerCase fs (candidate x)"
    and "\<forall>y \<in> set ys. affinityIndex y = affinityOf toLowerCase fs (candidate y) \<and> originalIndex x < originalIndex y"
  shows "insertBy compareScored x ys = insort_key (\<lambda>s. rankOf toLowerCase fs (candidate s)) x ys"
  using assms(2)
proof (induction ys)
  case Nil
  then show ?case by simp
next
  case (Cons y ys)
  have "positive (compareScored x y) \<longleftrightarrow> \<not> rankOf toLowerCase fs (candidate x) \<le> rankOf toLowerCase fs (candidate y)"
    using compareScored_positive [of x toLowerCase fs y] assms(1) Cons.prems by simp
  then show ?case using Cons by simp
qed

lemma scoreFrom_props:
  "map candidate (scoreFrom toLowerCase cs fs i) = cs
   \<and> (\<forall>s \<in> set (scoreFrom toLowerCase cs fs i). affinityIndex s = affinityOf toLowerCase fs (candidate s) \<and> i \<le> originalIndex s)"
proof (induction cs arbitrary: i)
  case Nil
  then show ?case by simp
next
  case (Cons c cs)
  show ?case using Cons [of "Suc i"] by (auto simp: affinityOf_def Let_def)
qed

lemma sortBy_sort_key:
  "sortBy compareScored (scoreFrom toLowerCase cs fs i) = sort_key (\<lambda>s. rankOf toLowerCase fs (candidate s)) (scoreFrom toLowerCase cs fs i)"
proof (induction cs arbitrary: i)
  case Nil
  then show ?case by simp
next
  case (Cons c cs)
  define x where "x = \<lparr> candidate = c,
       affinityIndex = (let a = matchAffinity toLowerCase c fs in if a \<ge> 0 then Finite a else PosInfinity),
       originalIndex = i \<rparr>"
  have x: "affinityIndex x = affinityOf toLowerCase fs (candidate x)" "originalIndex x = i"
    by (simp_all add: x_def affinityOf_def Let_def)
  have rest: "\<forall>y \<in> set (sort_key (\<lambda>s. rankOf toLowerCase fs (candidate s)) (scoreFrom toLowerCase cs fs (Suc i))).
            affinityIndex y = affinityOf toLowerCase fs (candidate y) \<and> originalIndex x < originalIndex y"
    using scoreFrom_props [of toLowerCase cs fs "Suc i"] x(2) by auto
  have "sortBy compareScored (scoreFrom toLowerCase (c # cs) fs i)
          = insertBy compareScored x (sort_key (\<lambda>s. rankOf toLowerCase fs (candidate s)) (scoreFrom toLowerCase cs fs (Suc i)))"
    using Cons [of "Suc i"] by (simp add: x_def)
  also have "\<dots> = insort_key (\<lambda>s. rankOf toLowerCase fs (candidate s)) x
                     (sort_key (\<lambda>s. rankOf toLowerCase fs (candidate s)) (scoreFrom toLowerCase cs fs (Suc i)))"
    by (rule insertBy_insort [OF x(1) rest])
  also have "\<dots> = sort_key (\<lambda>s. rankOf toLowerCase fs (candidate s)) (scoreFrom toLowerCase (c # cs) fs i)"
    by (simp add: x_def)
  finally show ?case .
qed

subsection \<open>A stable sort by a bounded rank lists the groups in order\<close>

lemma groupsUpTo_Suc: "groupsUpTo f (Suc m) xs = groupsUpTo f m xs @ filter (\<lambda>x. f x = m) xs"
  by (simp add: groupsUpTo_def)

lemma groupsUpTo_set: "set (groupsUpTo f m xs) = {x \<in> set xs. f x < m}"
  by (induction m) (auto simp: groupsUpTo_Suc groupsUpTo_def less_Suc_eq)

lemma groupsUpTo_mset: "mset (groupsUpTo f m xs) = mset (filter (\<lambda>x. f x < m) xs)"
proof (induction m)
  case 0
  then show ?case by (simp add: groupsUpTo_def)
next
  case (Suc m)
  have "mset (filter (\<lambda>x. f x < Suc m) xs) = mset (filter (\<lambda>x. f x < m) xs) + mset (filter (\<lambda>x. f x = m) xs)"
    by (induction xs) (auto simp: less_Suc_eq)
  then show ?case using Suc by (simp add: groupsUpTo_Suc)
qed

lemma groupsUpTo_filter:
  "filter (\<lambda>x. f x = j) (groupsUpTo f m xs) = (if j < m then filter (\<lambda>x. f x = j) xs else [])"
proof (induction m)
  case 0
  then show ?case by (simp add: groupsUpTo_def)
next
  case (Suc m)
  have "filter (\<lambda>x. f x = j) (filter (\<lambda>x. f x = m) xs) = (if j = m then filter (\<lambda>x. f x = j) xs else [])"
    by (induction xs) auto
  then show ?case using Suc by (auto simp: groupsUpTo_Suc less_Suc_eq)
qed

lemma groupsUpTo_sorted: "sorted (map f (groupsUpTo f m xs))"
proof (induction m)
  case 0
  then show ?case by (simp add: groupsUpTo_def)
next
  case (Suc m)
  have "sorted (map f (filter (\<lambda>x. f x = m) xs))" by (induction xs) auto
  then show ?case using Suc groupsUpTo_set [of f m xs]
    by (auto simp: groupsUpTo_Suc sorted_append)
qed

lemma sort_key_groups:
  assumes "\<forall>x \<in> set xs. f x < m"
  shows "sort_key f xs = groupsUpTo f m xs"
proof (rule properties_for_sort_key)
  show "mset (groupsUpTo f m xs) = mset xs"
    using assms by (simp add: groupsUpTo_mset filter_id_conv)
  show "filter (\<lambda>x. f k = f x) (groupsUpTo f m xs) = filter (\<lambda>x. f k = f x) xs"
    if "k \<in> set (groupsUpTo f m xs)" for k
  proof -
    have "f k < m" using that groupsUpTo_set [of f m xs] by auto
    then show ?thesis using groupsUpTo_filter [of f "f k" m xs] by (simp add: eq_commute)
  qed
  show "sorted (map f (groupsUpTo f m xs))" by (rule groupsUpTo_sorted)
qed

lemma groupsUpTo_map: "map g (groupsUpTo (\<lambda>s. f (g s)) m xs) = groupsUpTo f m (map g xs)"
  by (simp add: groupsUpTo_def map_concat comp_def filter_map)

lemma routed_groups:
  "map candidate (sortBy compareScored (scoreFrom toLowerCase cs fs 0)) = groupsUpTo (rankOf toLowerCase fs) (Suc (length fs)) cs"
proof -
  have "\<forall>s \<in> set (scoreFrom toLowerCase cs fs 0). rankOf toLowerCase fs (candidate s) < Suc (length fs)"
    using rankOf_le by (simp add: less_Suc_eq_le)
  then have "sort_key (\<lambda>s. rankOf toLowerCase fs (candidate s)) (scoreFrom toLowerCase cs fs 0)
               = groupsUpTo (\<lambda>s. rankOf toLowerCase fs (candidate s)) (Suc (length fs)) (scoreFrom toLowerCase cs fs 0)"
    by (rule sort_key_groups)
  then show ?thesis
    using scoreFrom_props [of toLowerCase cs fs 0] by (simp add: sortBy_sort_key groupsUpTo_map)
qed

lemma groups_by_index:
  "groupsUpTo (rankOf toLowerCase fs) (Suc (length fs)) cs =
     concat (map (\<lambda>i. filter (\<lambda>c. matchAffinity toLowerCase c fs = int i) cs) [0..<length fs])
     @ filter (\<lambda>c. matchAffinity toLowerCase c fs = -1) cs"
proof -
  have m: "map (\<lambda>k. filter (\<lambda>c. rankOf toLowerCase fs c = k) cs) [0..<length fs]
          = map (\<lambda>i. filter (\<lambda>c. matchAffinity toLowerCase c fs = int i) cs) [0..<length fs]"
    by (rule map_cong) (auto simp: rankOf_index)
  have c: "concat (map (\<lambda>k. filter (\<lambda>c. rankOf toLowerCase fs c = k) cs) [0..<length fs])
          = concat (map (\<lambda>i. filter (\<lambda>c. matchAffinity toLowerCase c fs = int i) cs) [0..<length fs])"
    using m by (rule arg_cong)
  show ?thesis
    by (simp add: groupsUpTo_Suc groupsUpTo_def rankOf_none c)
qed


subsection \<open>The routing as a whole\<close>

lemma classify_absent [simp]: "classifyTaskType None = general" "classifyTaskType (Some []) = general"
  by (simp_all add: classifyTaskType_def)

lemma applySmartRouting_noop:
  assumes "length cs < 2 \<or> classifyTaskType prompt = general \<or> routingDisabled cfg
           \<or> resolvedFragments cfg (classifyTaskType prompt) = []"
  shows "applySmartRouting toLowerCase cs prompt cfg = cs"
  using assms
  by (auto simp: applySmartRouting_def Let_def routingDisabled_def resolvedFragments_def
      split: option.splits)

lemma applySmartRouting_groups:
  assumes "\<not> (length cs < 2 \<or> classifyTaskType prompt = general \<or> routingDisabled cfg
           \<or> resolvedFragments cfg (classifyTaskType prompt) = [])"
  shows "applySmartRouting toLowerCase cs prompt cfg =
           groupsUpTo (rankOf toLowerCase (resolvedFragments cfg (classifyTaskType prompt)))
             (Suc (length (resolvedFragments cfg (classifyTaskType prompt)))) cs"
proof -
  have ng: "classifyTaskType prompt \<noteq> general" using assms by simp
  have p1: "prompt \<noteq> None"
  proof
    assume "prompt = None"
    then have "classifyTaskType prompt = general" by simp
    with ng show False by simp
  qed
  have p2: "prompt \<noteq> Some []"
  proof
    assume "prompt = Some []"
    then have "classifyTaskType prompt = general" by simp
    with ng show False by simp
  qed
  note p = p1 p2
  have "applySmartRouting toLowerCase cs prompt cfg =
          map candidate (sortBy compareScored
            (scoreFrom toLowerCase cs (resolvedFragments cfg (classifyTaskType prompt)) 0))"
    using assms p
    by (auto simp: applySmartRouting_def Let_def routingDisabled_def resolvedFragments_def)
  then show ?thesis by (simp add: routed_groups)
qed

lemma groupsUpTo_all_mset:
  assumes "\<forall>x \<in> set xs. f x < m"
  shows "mset (groupsUpTo f m xs) = mset xs"
  using assms by (simp add: groupsUpTo_mset filter_id_conv)

lemma applySmartRouting_mset: "mset (applySmartRouting toLowerCase cs prompt cfg) = mset cs"
proof (cases "length cs < 2 \<or> classifyTaskType prompt = general \<or> routingDisabled cfg
           \<or> resolvedFragments cfg (classifyTaskType prompt) = []")
  case True
  then show ?thesis by (simp add: applySmartRouting_noop)
next
  case False
  have "\<forall>c \<in> set cs. rankOf toLowerCase (resolvedFragments cfg (classifyTaskType prompt)) c
          < Suc (length (resolvedFragments cfg (classifyTaskType prompt)))"
    using rankOf_le by (simp add: less_Suc_eq_le)
  then show ?thesis
    unfolding applySmartRouting_groups [OF False] by (rule groupsUpTo_all_mset)
qed

text \<open>
  C1. The list that the smart routing returns and the list that the budget filter
  returns have the same elements with the same multiplicities as the input list, hence
  the same length.
\<close>

theorem reordering_is_permutation:
  "mset (applySmartRouting toLowerCase cs prompt cfg) = mset cs
   \<and> length (applySmartRouting toLowerCase cs prompt cfg) = length cs
   \<and> mset (filterByBudget toLowerCase cs usageSummary) = mset cs
   \<and> length (filterByBudget toLowerCase cs usageSummary) = length cs"
  using applySmartRouting_mset [of toLowerCase cs prompt cfg] filterByBudget_mset [of toLowerCase cs usageSummary]
    mset_eq_length by blast


lemma matchAffinity_index:
  "matchAffinity toLowerCase c fs = int i \<longleftrightarrow>
     i < length fs \<and> sublist (toLowerCase (fs ! i)) (candidateKey toLowerCase c)
     \<and> (\<forall>j < i. \<not> sublist (toLowerCase (fs ! j)) (candidateKey toLowerCase c))"
  using matchFrom_index [of toLowerCase "candidateKey toLowerCase c" fs 0 i]
  by (simp add: matchAffinity_def includesStr_sublist)

lemma matchAffinity_none:
  "matchAffinity toLowerCase c fs = -1 \<longleftrightarrow> (\<forall>j < length fs. \<not> sublist (toLowerCase (fs ! j)) (candidateKey toLowerCase c))"
  using matchFrom_none [of toLowerCase "candidateKey toLowerCase c" fs 0]
  by (simp add: matchAffinity_def includesStr_sublist)

text \<open>
  C3, amended. The routing returns its input when there are fewer than two candidates,
  the task is \<open>general\<close>, the routing is disabled or the resolved fragment list is empty.
  Otherwise it returns, for each fragment index in ascending order, the candidates with
  that match index in their original order, followed by the candidates without a match in
  their original order. The match index of a candidate is the index of the first fragment
  whose lower-cased text is a substring of the candidate's lower-cased
  \<open>provider/model\<close> key. The lower-casing of both is the argument \<open>toLowerCase\<close>: the
  statement holds whatever function of the string the built-in is.
\<close>

theorem smart_routing_order:
  "((length cs < 2 \<or> classifyTaskType prompt = general \<or> routingDisabled cfg
       \<or> resolvedFragments cfg (classifyTaskType prompt) = [])
      \<longrightarrow> applySmartRouting toLowerCase cs prompt cfg = cs)
   \<and> (\<not> (length cs < 2 \<or> classifyTaskType prompt = general \<or> routingDisabled cfg
           \<or> resolvedFragments cfg (classifyTaskType prompt) = [])
      \<longrightarrow> applySmartRouting toLowerCase cs prompt cfg =
            concat (map (\<lambda>i. filter (\<lambda>c. matchAffinity toLowerCase c (resolvedFragments cfg (classifyTaskType prompt)) = int i) cs)
                        [0..<length (resolvedFragments cfg (classifyTaskType prompt))])
            @ filter (\<lambda>c. matchAffinity toLowerCase c (resolvedFragments cfg (classifyTaskType prompt)) = -1) cs)
   \<and> (matchAffinity toLowerCase c fs = int i \<longleftrightarrow>
         i < length fs \<and> sublist (toLowerCase (fs ! i)) (candidateKey toLowerCase c)
         \<and> (\<forall>j < i. \<not> sublist (toLowerCase (fs ! j)) (candidateKey toLowerCase c)))
   \<and> (matchAffinity toLowerCase c fs = -1 \<longleftrightarrow> (\<forall>j < length fs. \<not> sublist (toLowerCase (fs ! j)) (candidateKey toLowerCase c)))
   \<and> candidateKey toLowerCase c = toLowerCase (provider c @ js ''/'' @ model c)"
proof (intro conjI impI)
  show "applySmartRouting toLowerCase cs prompt cfg = cs"
    if "length cs < 2 \<or> classifyTaskType prompt = general \<or> routingDisabled cfg
       \<or> resolvedFragments cfg (classifyTaskType prompt) = []"
    using that by (rule applySmartRouting_noop)
  show "applySmartRouting toLowerCase cs prompt cfg =
            concat (map (\<lambda>i. filter (\<lambda>c. matchAffinity toLowerCase c (resolvedFragments cfg (classifyTaskType prompt)) = int i) cs)
                        [0..<length (resolvedFragments cfg (classifyTaskType prompt))])
            @ filter (\<lambda>c. matchAffinity toLowerCase c (resolvedFragments cfg (classifyTaskType prompt)) = -1) cs"
    if "\<not> (length cs < 2 \<or> classifyTaskType prompt = general \<or> routingDisabled cfg
           \<or> resolvedFragments cfg (classifyTaskType prompt) = [])"
    unfolding applySmartRouting_groups [OF that] by (rule groups_by_index)
  show "matchAffinity toLowerCase c fs = int i \<longleftrightarrow>
         i < length fs \<and> sublist (toLowerCase (fs ! i)) (candidateKey toLowerCase c)
         \<and> (\<forall>j < i. \<not> sublist (toLowerCase (fs ! j)) (candidateKey toLowerCase c))"
    by (rule matchAffinity_index)
  show "matchAffinity toLowerCase c fs = -1 \<longleftrightarrow> (\<forall>j < length fs. \<not> sublist (toLowerCase (fs ! j)) (candidateKey toLowerCase c))"
    by (rule matchAffinity_none)
  show "candidateKey toLowerCase c = toLowerCase (provider c @ js ''/'' @ model c)"
    by (simp add: candidateKey_def)
qed


subsection \<open>Routing at concrete inputs\<close>

lemma classify_example: "classifyTaskType (Some (js ''explain why debug'')) = code"
proof -
  have "js ''explain why debug'' \<noteq> []" by (simp add: js_def)
  then show ?thesis
    by (simp add: classify_nonempty explain_why_debug_counts)
qed

lemma upt_4: "[0..<4] = [0, 1, 2, 3]"
  by (simp add: upt_rec)

lemmas key_defs = matchAffinity_def candidateKey_def lowerASCII_def js_def

lemma llama_matches:
  "matchAffinity lowerASCII \<lparr> provider = js ''a'', model = js ''b'' \<rparr> [js ''LLAMA''] = -1"
  "matchAffinity lowerASCII \<lparr> provider = js ''x'', model = js ''llama'' \<rparr> [js ''LLAMA''] = 0"
  "\<not> includesStr (candidateKey lowerASCII \<lparr> provider = js ''a'', model = js ''b'' \<rparr>) (js ''LLAMA'')"
  "\<not> includesStr (candidateKey lowerASCII \<lparr> provider = js ''x'', model = js ''llama'' \<rparr>) (js ''LLAMA'')"
  by (simp_all add: key_defs)

lemma default_code_matches:
  "matchAffinity lowerASCII \<lparr> provider = js ''google'', model = js ''gemini'' \<rparr> (DEFAULT_ROUTING_RULES code) = -1"
  "matchAffinity lowerASCII \<lparr> provider = js ''deepseek'', model = js ''chat'' \<rparr> (DEFAULT_ROUTING_RULES code) = 1"
  "matchAffinity lowerASCII \<lparr> provider = js ''meta'', model = js ''llama'' \<rparr> (DEFAULT_ROUTING_RULES code) = -1"
  "matchAffinity lowerASCII \<lparr> provider = js ''OpenAI'', model = js ''Codex-1'' \<rparr> (DEFAULT_ROUTING_RULES code) = 0"
  by (simp_all add: key_defs DEFAULT_ROUTING_RULES_def)


text \<open>
  C3, as the claim states it, fails: with the configured fragment \<open>LLAMA\<close> for code
  tasks, neither candidate key contains the fragment as it is written, yet the routing
  moves \<open>x/llama\<close> to the front, because the fragment is lower-cased before the test.
\<close>

theorem uppercase_fragment_counterexample:
  "applySmartRouting lowerASCII
     [\<lparr> provider = js ''a'', model = js ''b'' \<rparr>, \<lparr> provider = js ''x'', model = js ''llama'' \<rparr>]
     (Some (js ''explain why debug''))
     (Some \<lparr> smartRouting = Some \<lparr> routing_enabled = None,
                rules = Some (\<lambda>t. if t = code then Some [js ''LLAMA''] else None) \<rparr> \<rparr>)
   = [\<lparr> provider = js ''x'', model = js ''llama'' \<rparr>, \<lparr> provider = js ''a'', model = js ''b'' \<rparr>]
   \<and> \<not> sublist (js ''LLAMA'') (candidateKey lowerASCII \<lparr> provider = js ''a'', model = js ''b'' \<rparr>)
   \<and> \<not> sublist (js ''LLAMA'') (candidateKey lowerASCII \<lparr> provider = js ''x'', model = js ''llama'' \<rparr>)"
proof -
  define cfg where "cfg = Some \<lparr> smartRouting = Some \<lparr> routing_enabled = None,
                rules = Some (\<lambda>t. if t = code then Some [js ''LLAMA''] else None) \<rparr> \<rparr>"
  define c1 where "c1 = \<lparr> provider = js ''a'', model = js ''b'' \<rparr>"
  define c2 where "c2 = \<lparr> provider = js ''x'', model = js ''llama'' \<rparr>"
  have fr: "resolvedFragments cfg code = [js ''LLAMA'']"
    by (simp add: resolvedFragments_def resolveSmartRoutingConfig_def cfg_def)
  have en: "\<not> routingDisabled cfg"
    by (simp add: routingDisabled_def resolveSmartRoutingConfig_def cfg_def)
  have go: "\<not> (length [c1, c2] < 2 \<or> classifyTaskType (Some (js ''explain why debug'')) = general
           \<or> routingDisabled cfg
           \<or> resolvedFragments cfg (classifyTaskType (Some (js ''explain why debug''))) = [])"
    by (simp add: classify_example fr en)
  have "applySmartRouting lowerASCII [c1, c2] (Some (js ''explain why debug'')) cfg = [c2, c1]"
    unfolding applySmartRouting_groups [OF go] groups_by_index classify_example fr
    by (simp add: llama_matches [folded c1_def c2_def])
  moreover have "\<not> sublist (js ''LLAMA'') (candidateKey lowerASCII c1)" "\<not> sublist (js ''LLAMA'') (candidateKey lowerASCII c2)"
    using llama_matches(3,4) by (simp_all add: includesStr_sublist c1_def c2_def)
  ultimately show ?thesis unfolding cfg_def c1_def c2_def by simp
qed

theorem smart_routing_order_witness:
  "applySmartRouting lowerASCII
     [\<lparr> provider = js ''google'', model = js ''gemini'' \<rparr>, \<lparr> provider = js ''deepseek'', model = js ''chat'' \<rparr>,
      \<lparr> provider = js ''meta'', model = js ''llama'' \<rparr>, \<lparr> provider = js ''OpenAI'', model = js ''Codex-1'' \<rparr>]
     (Some (js ''explain why debug'')) None
   = [\<lparr> provider = js ''OpenAI'', model = js ''Codex-1'' \<rparr>, \<lparr> provider = js ''deepseek'', model = js ''chat'' \<rparr>,
      \<lparr> provider = js ''google'', model = js ''gemini'' \<rparr>, \<lparr> provider = js ''meta'', model = js ''llama'' \<rparr>]
   \<and> applySmartRouting lowerASCII
     [\<lparr> provider = js ''google'', model = js ''gemini'' \<rparr>, \<lparr> provider = js ''deepseek'', model = js ''chat'' \<rparr>]
     (Some (js ''explain why debug''))
     (Some \<lparr> smartRouting = Some \<lparr> routing_enabled = Some False, rules = None \<rparr> \<rparr>)
   = [\<lparr> provider = js ''google'', model = js ''gemini'' \<rparr>, \<lparr> provider = js ''deepseek'', model = js ''chat'' \<rparr>]"
proof -
  define g where "g = \<lparr> provider = js ''google'', model = js ''gemini'' \<rparr>"
  define d where "d = \<lparr> provider = js ''deepseek'', model = js ''chat'' \<rparr>"
  define l where "l = \<lparr> provider = js ''meta'', model = js ''llama'' \<rparr>"
  define oc where "oc = \<lparr> provider = js ''OpenAI'', model = js ''Codex-1'' \<rparr>"
  define off where "off = Some \<lparr> smartRouting = Some \<lparr> routing_enabled = Some False, rules = None \<rparr> \<rparr>"
  have fr: "resolvedFragments None code = DEFAULT_ROUTING_RULES code"
    by (simp add: resolvedFragments_def resolveSmartRoutingConfig_def)
  have len: "length (DEFAULT_ROUTING_RULES code) = 4" by (simp add: DEFAULT_ROUTING_RULES_def)
  have en: "\<not> routingDisabled None"
    by (simp add: routingDisabled_def resolveSmartRoutingConfig_def)
  have dis: "routingDisabled off"
    by (simp add: routingDisabled_def resolveSmartRoutingConfig_def off_def)
  have m: "matchAffinity lowerASCII g (DEFAULT_ROUTING_RULES code) = -1" "matchAffinity lowerASCII d (DEFAULT_ROUTING_RULES code) = 1"
    "matchAffinity lowerASCII l (DEFAULT_ROUTING_RULES code) = -1" "matchAffinity lowerASCII oc (DEFAULT_ROUTING_RULES code) = 0"
    unfolding g_def d_def l_def oc_def by (rule default_code_matches)+
  have go: "\<not> (length [g, d, l, oc] < 2 \<or> classifyTaskType (Some (js ''explain why debug'')) = general
           \<or> routingDisabled None
           \<or> resolvedFragments None (classifyTaskType (Some (js ''explain why debug''))) = [])"
    using len by (auto simp: classify_example fr en)
  note inst = smart_routing_order [of "[g, d, l, oc]" "Some (js ''explain why debug'')" None lowerASCII g "[]" 0]
  from inst go have "applySmartRouting lowerASCII [g, d, l, oc] (Some (js ''explain why debug'')) None =
            concat (map (\<lambda>i. filter (\<lambda>c. matchAffinity lowerASCII c (resolvedFragments None (classifyTaskType (Some (js ''explain why debug'')))) = int i) [g, d, l, oc])
                        [0..<length (resolvedFragments None (classifyTaskType (Some (js ''explain why debug''))))])
            @ filter (\<lambda>c. matchAffinity lowerASCII c (resolvedFragments None (classifyTaskType (Some (js ''explain why debug'')))) = -1) [g, d, l, oc]"
    by blast
  then have first: "applySmartRouting lowerASCII [g, d, l, oc] (Some (js ''explain why debug'')) None = [oc, d, g, l]"
    unfolding classify_example fr len upt_4 by (simp add: m)
  note inst2 = smart_routing_order [of "[g, d]" "Some (js ''explain why debug'')" off lowerASCII g "[]" 0]
  from inst2 dis have second: "applySmartRouting lowerASCII [g, d] (Some (js ''explain why debug'')) off = [g, d]"
    by blast
  from first second show ?thesis unfolding g_def d_def l_def oc_def off_def by (rule conjI)
qed

theorem reordering_is_permutation_witness:
  "mset (applySmartRouting lowerASCII
     [\<lparr> provider = js ''google'', model = js ''gemini'' \<rparr>, \<lparr> provider = js ''deepseek'', model = js ''chat'' \<rparr>]
     (Some (js ''explain why debug'')) None)
   = mset [\<lparr> provider = js ''google'', model = js ''gemini'' \<rparr>, \<lparr> provider = js ''deepseek'', model = js ''chat'' \<rparr>]
   \<and> length (applySmartRouting lowerASCII
     [\<lparr> provider = js ''google'', model = js ''gemini'' \<rparr>, \<lparr> provider = js ''deepseek'', model = js ''chat'' \<rparr>]
     (Some (js ''explain why debug'')) None)
   = length [\<lparr> provider = js ''google'', model = js ''gemini'' \<rparr>, \<lparr> provider = js ''deepseek'', model = js ''chat'' \<rparr>]
   \<and> mset (filterByBudget lowerASCII
     [\<lparr> provider = js ''google'', model = js ''gemini'' \<rparr>, \<lparr> provider = js ''deepseek'', model = js ''chat'' \<rparr>]
     (Some \<lparr> providers = [\<lparr> usage_provider = js ''google-antigravity'',
                              windows = [\<lparr> usedPercent = 95, resetAt = None \<rparr>] \<rparr>] \<rparr>))
   = mset [\<lparr> provider = js ''google'', model = js ''gemini'' \<rparr>, \<lparr> provider = js ''deepseek'', model = js ''chat'' \<rparr>]
   \<and> length (filterByBudget lowerASCII
     [\<lparr> provider = js ''google'', model = js ''gemini'' \<rparr>, \<lparr> provider = js ''deepseek'', model = js ''chat'' \<rparr>]
     (Some \<lparr> providers = [\<lparr> usage_provider = js ''google-antigravity'',
                              windows = [\<lparr> usedPercent = 95, resetAt = None \<rparr>] \<rparr>] \<rparr>))
   = length [\<lparr> provider = js ''google'', model = js ''gemini'' \<rparr>, \<lparr> provider = js ''deepseek'', model = js ''chat'' \<rparr>]"
  by (rule reordering_is_permutation)

end
